theory Spec2Isabelle
  imports Main "HOL-Library.Word" "HOL-Library.AList"
begin

section \<open>JavaScript strings\<close>

text \<open>
  A JavaScript string is a sequence of 16-bit code units; \<open>length\<close>, \<open>substring\<close> and the
  pattern matcher (without the \<open>u\<close> flag) all count code units. \<open>js\<close> writes an ASCII
  literal as such a sequence.
\<close>

type_synonym code_unit = "16 word"
type_synonym jsstring = "code_unit list"

definition js :: "string \<Rightarrow> jsstring" where
  "js s = map of_char s"

text \<open>
  \<open>String.prototype.substring(start, end)\<close>: both arguments are clamped to
  \<open>[0, length]\<close> and swapped when \<open>start > end\<close>; it never throws.
\<close>

definition substring :: "jsstring \<Rightarrow> int \<Rightarrow> int \<Rightarrow> jsstring" where
  "substring s a b =
     (let len = int (length s);
          a' = min (max a 0) len;
          b' = min (max b 0) len;
          lo = min a' b';
          hi = max a' b'
      in take (nat (hi - lo)) (drop (nat lo) s))"

section \<open>The Matcher (EntityViewer.tsx, lines 134--143)\<close>

subsection \<open>Character classes\<close>

text \<open>The class \<open>\w\<close> of the pattern language: \<open>[A-Za-z0-9_]\<close>.\<close>

definition is_word_char :: "code_unit \<Rightarrow> bool" where
  "is_word_char c \<longleftrightarrow>
     (0x30 \<le> c \<and> c \<le> 0x39) \<or> (0x41 \<le> c \<and> c \<le> 0x5A) \<or> c = 0x5F \<or> (0x61 \<le> c \<and> c \<le> 0x7A)"

text \<open>The backslash, and the letter \<open>b\<close> that follows it in a word-boundary assertion.\<close>

definition backslash :: code_unit where
  "backslash = 0x5C"

definition letter_b :: code_unit where
  "letter_b = 0x62"

text \<open>
  The class \<open>[.*+?^${}()|[\]\\]\<close> of \<open>escapeRegExp\<close>, in the order the source lists
  its members.
\<close>

definition escape_class :: "code_unit \<Rightarrow> bool" where
  "escape_class c \<longleftrightarrow>
     c \<in> {0x2E, 0x2A, 0x2B, 0x3F, 0x5E, 0x24, 0x7B, 0x7D, 0x28, 0x29, 0x7C, 0x5B, 0x5D, 0x5C}"

text \<open>
  The SyntaxCharacter production of the pattern grammar:
  \<open>^ $ \ . * + ? ( ) [ ] { } |\<close>. Only these (unescaped) carry a special meaning
  outside a character class.
\<close>

definition is_syntax_char :: "code_unit \<Rightarrow> bool" where
  "is_syntax_char c \<longleftrightarrow>
     c \<in> {0x5E, 0x24, 0x5C, 0x2E, 0x2A, 0x2B, 0x3F, 0x28, 0x29, 0x5B, 0x5D, 0x7B, 0x7D, 0x7C}"

subsection \<open>escapeRegExp and createExactMatchRegex\<close>

text \<open>
  \<open>string.replace(/[.*+?^${}()|[\]\\]/g, '\\$&')\<close>: every member of the class is
  replaced by a backslash followed by itself.
\<close>

definition escapeRegExp :: "jsstring \<Rightarrow> jsstring" where
  "escapeRegExp string = concat (map (\<lambda>c. if escape_class c then [backslash, c] else [c]) string)"

text \<open>
  The patterns this program builds use three constructs of the pattern language: a
  literal character, an escaped syntax character, and the assertion \<open>\b\<close>. The
  constructor \<open>new RegExp(source, flags)\<close> is modelled on that fragment: a source that
  uses anything else (an unescaped syntax character, another escape, a trailing
  backslash) is not parsed, and the result is \<open>None\<close>.
\<close>

datatype node = Literal code_unit | WordBoundary

fun parse_pattern :: "jsstring \<Rightarrow> node list option" where
  "parse_pattern [] = Some []"
| "parse_pattern [c] = (if is_syntax_char c then None else Some [Literal c])"
| "parse_pattern (c # d # cs) =
     (if c = backslash then
        (if d = letter_b then map_option (Cons WordBoundary) (parse_pattern cs)
         else if is_syntax_char d then map_option (Cons (Literal d)) (parse_pattern cs)
         else None)
      else if is_syntax_char c then None
      else map_option (Cons (Literal c)) (parse_pattern (d # cs)))"

record regexp =
  nodes :: "node list"
  global :: bool
  ignoreCase :: bool
  lastIndex :: nat

definition new_RegExp :: "jsstring \<Rightarrow> jsstring \<Rightarrow> regexp option" where
  "new_RegExp source flags =
     map_option
       (\<lambda>ns. \<lparr>nodes = ns, global = (0x67 \<in> set flags), ignoreCase = (0x69 \<in> set flags),
              lastIndex = 0\<rparr>)
       (parse_pattern source)"

text \<open>\<open>/^\w/.test(entity)\<close> and \<open>/\w$/.test(entity)\<close> (no \<open>m\<close> flag).\<close>

definition starts_with_word :: "jsstring \<Rightarrow> bool" where
  "starts_with_word entity = (case entity of [] \<Rightarrow> False | c # _ \<Rightarrow> is_word_char c)"

definition ends_with_word :: "jsstring \<Rightarrow> bool" where
  "ends_with_word entity = (entity \<noteq> [] \<and> is_word_char (last entity))"

definition pattern_source :: "jsstring \<Rightarrow> jsstring" where
  "pattern_source entity =
     (let escaped = escapeRegExp entity;
          startBoundary = (if starts_with_word entity then [backslash, letter_b] else []);
          endBoundary = (if ends_with_word entity then [backslash, letter_b] else [])
      in startBoundary @ escaped @ endBoundary)"

definition createExactMatchRegex :: "jsstring \<Rightarrow> bool \<Rightarrow> regexp option" where
  "createExactMatchRegex entity g =
     new_RegExp (pattern_source entity) (if g then js ''gi'' else js ''i'')"

subsection \<open>Matching\<close>

text \<open>
  Case-insensitive comparison goes through Canonicalize: without the \<open>u\<close> flag a code
  unit is mapped to its upper-case form, unless that form is not a single code unit, or
  maps a non-ASCII unit into ASCII; then the unit stays as it is. For ASCII the mapping
  is \<open>a-z\<close> to \<open>A-Z\<close>. The upper-case table for the other code units belongs to the
  host's Unicode data; it is the parameter \<open>uc\<close> of the matcher (the unit itself where
  the upper-case form is longer than one unit).
\<close>

definition ascii_upper :: "code_unit \<Rightarrow> code_unit" where
  "ascii_upper c = (if 0x61 \<le> c \<and> c \<le> 0x7A then c - 0x20 else c)"

definition canonicalize :: "(code_unit \<Rightarrow> code_unit) \<Rightarrow> bool \<Rightarrow> code_unit \<Rightarrow> code_unit" where
  "canonicalize uc ic ch =
     (if \<not> ic then ch
      else if ch < 0x80 then ascii_upper ch
      else (let cu = uc ch in if cu < 0x80 then ch else cu))"

text \<open>IsWordChar(e) of the matcher: false at \<open>-1\<close> and at the end of the input.\<close>

definition is_word_at :: "jsstring \<Rightarrow> int \<Rightarrow> bool" where
  "is_word_at s e = (if e < 0 \<or> int (length s) \<le> e then False else is_word_char (s ! nat e))"

text \<open>
  Matching a node sequence at position \<open>i\<close> of the input: the end position of the
  match, or \<open>None\<close>. The fragment has no alternatives, so there is no backtracking.
\<close>

fun match_nodes ::
  "(code_unit \<Rightarrow> code_unit) \<Rightarrow> bool \<Rightarrow> node list \<Rightarrow> jsstring \<Rightarrow> nat \<Rightarrow> nat option" where
  "match_nodes uc ic [] s i = Some i"
| "match_nodes uc ic (Literal c # ns) s i =
     (if i < length s \<and> canonicalize uc ic (s ! i) = canonicalize uc ic c
      then match_nodes uc ic ns s (Suc i) else None)"
| "match_nodes uc ic (WordBoundary # ns) s i =
     (if is_word_at s (int i - 1) \<noteq> is_word_at s (int i)
      then match_nodes uc ic ns s i else None)"

text \<open>
  The search of RegExpBuiltinExec: try position \<open>i\<close>, then \<open>i + 1\<close>, up to and
  including the end of the input.
\<close>

function search_from ::
  "(code_unit \<Rightarrow> code_unit) \<Rightarrow> regexp \<Rightarrow> jsstring \<Rightarrow> nat \<Rightarrow> (nat \<times> nat) option" where
  "search_from uc r s i =
     (if length s < i then None
      else case match_nodes uc (ignoreCase r) (nodes r) s i of
             Some e \<Rightarrow> Some (i, e)
           | None \<Rightarrow> search_from uc r s (Suc i))"
  by pat_completeness auto
termination
  by (relation "measure (\<lambda>(uc, r, s, i). Suc (length s) - i)") auto

declare search_from.simps [simp del]

record match_result =
  index :: nat
  matched :: jsstring

text \<open>
  \<open>regex.exec(s)\<close>: a global pattern starts at \<open>lastIndex\<close> and leaves it at the end of
  the match, or at 0 when there is none; a non-global one starts at 0 and keeps
  \<open>lastIndex\<close>.
\<close>

definition exec ::
  "(code_unit \<Rightarrow> code_unit) \<Rightarrow> regexp \<Rightarrow> jsstring \<Rightarrow> regexp \<times> match_result option" where
  "exec uc r s =
     (case search_from uc r s (if global r then lastIndex r else 0) of
        None \<Rightarrow> (if global r then r\<lparr>lastIndex := 0\<rparr> else r, None)
      | Some (i, e) \<Rightarrow>
          (if global r then r\<lparr>lastIndex := e\<rparr> else r,
           Some \<lparr>index = i, matched = take (e - i) (drop i s)\<rparr>))"

definition test :: "(code_unit \<Rightarrow> code_unit) \<Rightarrow> regexp \<Rightarrow> jsstring \<Rightarrow> regexp \<times> bool" where
  "test uc r s = (case exec uc r s of (r', m) \<Rightarrow> (r', m \<noteq> None))"

text \<open>
  The loop \<open>while ((match = regex.exec(s)) !== null) { body }\<close> of the page scanner
  (lines 222--236). The body may throw (\<open>Inl\<close>), which leaves the loop. Nothing in the
  loop itself bounds the number of iterations (a pattern that matches the empty string
  never advances), so the loop is a partial function and \<open>None\<close> stands for a run that
  does not end.
\<close>

partial_function (option) while_exec ::
  "(code_unit \<Rightarrow> code_unit) \<Rightarrow> (match_result \<Rightarrow> 's \<Rightarrow> 'e + 's) \<Rightarrow> regexp \<Rightarrow> jsstring \<Rightarrow> 's
     \<Rightarrow> ('e + 's) option" where
  "while_exec uc body r s st =
     (case exec uc r s of
        (r', None) \<Rightarrow> Some (Inr st)
      | (r', Some m) \<Rightarrow>
          (case body m st of
             Inl e \<Rightarrow> Some (Inl e)
           | Inr st' \<Rightarrow> while_exec uc body r' s st'))"

text \<open>
  All occurrences of an entity in a text, in the order the loop meets them: the loop
  above with a body that only appends the match.
\<close>

definition findAll ::
  "(code_unit \<Rightarrow> code_unit) \<Rightarrow> jsstring \<Rightarrow> jsstring \<Rightarrow> (unit + match_result list) option" where
  "findAll uc entity text =
     (case createExactMatchRegex entity True of
        None \<Rightarrow> Some (Inl ())
      | Some r \<Rightarrow> while_exec uc (\<lambda>m ms. Inr (ms @ [m])) r text [])"

text \<open>
  What the matcher is expected to find, in the words of the specification: an occurrence
  of the entity at position \<open>i\<close> up to case, the boundary rule at both ends, and
  occurrences that do not overlap; a position is covered when it lies inside an extracted
  occurrence. \<open>entity_nodes\<close> is the pattern the entity stands for: its characters as
  literals, between the assertions its first and last character ask for.
\<close>

definition entity_nodes :: "jsstring \<Rightarrow> node list" where
  "entity_nodes entity =
     (if starts_with_word entity then [WordBoundary] else []) @ map Literal entity @
     (if ends_with_word entity then [WordBoundary] else [])"

definition entity_regex :: "jsstring \<Rightarrow> nat \<Rightarrow> regexp" where
  "entity_regex e li = \<lparr>nodes = entity_nodes e, global = True, ignoreCase = True, lastIndex = li\<rparr>"

definition occurs_at :: "(code_unit \<Rightarrow> code_unit) \<Rightarrow> jsstring \<Rightarrow> jsstring \<Rightarrow> nat \<Rightarrow> bool" where
  "occurs_at uc e t i \<longleftrightarrow>
     i + length e \<le> length t \<and>
     map (canonicalize uc True) (take (length e) (drop i t)) = map (canonicalize uc True) e"

definition boundary_rule :: "jsstring \<Rightarrow> jsstring \<Rightarrow> nat \<Rightarrow> bool" where
  "boundary_rule e t i \<longleftrightarrow>
     (starts_with_word e \<longrightarrow> i = 0 \<or> \<not> is_word_char (t ! (i - 1))) \<and>
     (ends_with_word e \<longrightarrow> length t \<le> i + length e \<or> \<not> is_word_char (t ! (i + length e)))"

definition covered :: "jsstring \<Rightarrow> match_result list \<Rightarrow> nat \<Rightarrow> bool" where
  "covered e ms i \<longleftrightarrow> (\<exists>m \<in> set ms. index m \<le> i \<and> i < index m + length e)"

definition non_overlapping :: "match_result list \<Rightarrow> bool" where
  "non_overlapping ms = sorted_wrt (\<lambda>m m'. index m + length (matched m) \<le> index m') ms"

section \<open>The environment of the program\<close>

text \<open>
  Failures are values. \<open>DBError\<close> is the string \<open>"DB Error"\<close> that \<open>init\<close> rejects with; the
  others are the exceptions of the store, of the file access and of the document decoder.
\<close>

datatype exn =
    DBError
  | QuotaExceededError
  | DataError
  | AbortError
  | NotFoundError
  | NotAllowedError
  | SecurityError
  | SyntaxError
  | InvalidPDFException
  | PageException

datatype permission = Granted | Denied | Prompt

text \<open>
  A decoded document as the scan and the viewer see it. A text item is modelled by its
  \<open>str\<close>; its transform, width and height only feed the floating-point geometry of the
  highlight rectangles, which is left out. \<open>pdf.getPage(n)\<close> may reject (\<open>UnloadablePage\<close>),
  and so may \<open>page.getTextContent()\<close> (\<open>UnreadablePage\<close>); \<open>pdfjs.getDocument\<close> rejects
  on a \<open>Corrupt\<close> file; \<open>getFile()\<close> or \<open>arrayBuffer()\<close> reject on an \<open>Unreadable\<close> one.
\<close>

datatype page = Page "jsstring list" | UnloadablePage exn | UnreadablePage exn

datatype document = Corrupt exn | Pdf "page list"

datatype file_state = Unreadable exn | Readable document

text \<open>
  A file handle is a capability; it is modelled by its name and by what its methods
  answer when they are called.
\<close>

record file_handle =
  name :: jsstring
  contents :: file_state
  queryPermission :: "exn + permission"
  requestPermission :: "exn + permission"

text \<open>
  The host: the upper-case table behind Canonicalize, the clock behind \<open>Date.now()\<close> (its
  reading at the n-th insert of a run), and the text a built-in function or object of
  \<open>Object.prototype\<close> converts to.
\<close>

record host =
  upper_case :: "code_unit \<Rightarrow> code_unit"
  clock :: "nat \<Rightarrow> nat"
  native_text :: "jsstring \<Rightarrow> jsstring"

section \<open>The Match Store (EntityViewer.tsx, lines 10--82; db.ts)\<close>

record match_record =
  entity :: jsstring
  fileName :: jsstring
  pageNumber :: nat
  textSnippet :: jsstring
  fileHandle :: file_handle
  timestamp :: nat

text \<open>
  The object store \<open>matches\<close>: its rows in key order (the key is the \<open>id\<close> the key
  generator assigns), the key generator, and whether the connection is open. The store
  engine decides whether a request succeeds: \<open>outcomes\<close> holds the answers to the
  coming requests, \<open>None\<close> for success; when it is used up every request succeeds.
  A request that succeeded has not yet made its change last: the transaction around it
  still has to commit, and the engine may abort it then (a full disk, an exceeded
  quota). \<open>commits\<close> holds the answers to the coming commits of read-write
  transactions, \<open>None\<close> for a transaction that completes; when it is used up every
  transaction completes. An aborted transaction leaves the rows and the key generator
  as they were before it. A read-only transaction has nothing to commit.
\<close>

record local_db =
  opened :: bool
  rows :: "(nat \<times> match_record) list"
  key_generator :: nat
  outcomes :: "exn option list"
  commits :: "exn option list"

definition request :: "local_db \<Rightarrow> exn option \<times> local_db" where
  "request d = (case outcomes d of [] \<Rightarrow> (None, d) | x # xs \<Rightarrow> (x, d\<lparr>outcomes := xs\<rparr>))"

definition commit :: "local_db \<Rightarrow> exn option \<times> local_db" where
  "commit d = (case commits d of [] \<Rightarrow> (None, d) | x # xs \<Rightarrow> (x, d\<lparr>commits := xs\<rparr>))"

definition init :: "local_db \<Rightarrow> (exn + unit) \<times> local_db" where
  "init d =
     (if opened d then (Inr (), d)
      else case request d of
             (Some e, d') \<Rightarrow> (Inl DBError, d')
           | (None, d') \<Rightarrow> (Inr (), d'\<lparr>opened := True\<rparr>))"

text \<open>
  \<open>addMatch\<close> and \<open>clear\<close> of \<open>LocalDB\<close> (lines 32--52) settle their promise on the
  events of the request: \<open>request.onerror\<close> rejects it, \<open>request.onsuccess\<close> resolves
  it. No handler is put on the transaction \<open>tx\<close>, so the promise is already resolved when
  the transaction commits or aborts.
\<close>

definition addMatch :: "local_db \<Rightarrow> match_record \<Rightarrow> (exn + unit) \<times> local_db" where
  "addMatch d m =
     (case init d of
        (Inl e, d') \<Rightarrow> (Inl e, d')
      | (Inr _, d') \<Rightarrow>
          (case request d' of
             (Some e, d'') \<Rightarrow> (Inl e, d'')
           | (None, d'') \<Rightarrow>
               (case commit d'' of
                  (Some e, d3) \<Rightarrow> (Inr (), d3)
                | (None, d3) \<Rightarrow>
                    (Inr (), d3\<lparr>rows := rows d3 @ [(key_generator d3, m)],
                               key_generator := Suc (key_generator d3)\<rparr>))))"

definition clear :: "local_db \<Rightarrow> (exn + unit) \<times> local_db" where
  "clear d =
     (case init d of
        (Inl e, d') \<Rightarrow> (Inl e, d')
      | (Inr _, d') \<Rightarrow>
          (case request d' of
             (Some e, d'') \<Rightarrow> (Inl e, d'')
           | (None, d'') \<Rightarrow>
               (case commit d'' of
                  (Some e, d3) \<Rightarrow> (Inr (), d3)
                | (None, d3) \<Rightarrow> (Inr (), d3\<lparr>rows := []\<rparr>))))"

text \<open>
  \<open>addMatch\<close> and \<open>clearMatches\<close> of \<open>db.ts\<close> (lines 33--41) go through the \<open>idb\<close>
  wrapper: \<open>initDB\<close> opens the database at every call and rejects with the error of the
  open request, and \<open>db.add\<close> and \<open>db.clear\<close> resolve only when the request has
  succeeded and the transaction is done; the abort of the transaction rejects them.
\<close>

definition initDB :: "local_db \<Rightarrow> (exn + unit) \<times> local_db" where
  "initDB d =
     (case request d of
        (Some e, d') \<Rightarrow> (Inl e, d')
      | (None, d') \<Rightarrow> (Inr (), d'\<lparr>opened := True\<rparr>))"

definition db_ts_addMatch :: "local_db \<Rightarrow> match_record \<Rightarrow> (exn + unit) \<times> local_db" where
  "db_ts_addMatch d m =
     (case initDB d of
        (Inl e, d') \<Rightarrow> (Inl e, d')
      | (Inr _, d') \<Rightarrow>
          (case request d' of
             (Some e, d'') \<Rightarrow> (Inl e, d'')
           | (None, d'') \<Rightarrow>
               (case commit d'' of
                  (Some e, d3) \<Rightarrow> (Inl e, d3)
                | (None, d3) \<Rightarrow>
                    (Inr (), d3\<lparr>rows := rows d3 @ [(key_generator d3, m)],
                               key_generator := Suc (key_generator d3)\<rparr>))))"

definition clearMatches :: "local_db \<Rightarrow> (exn + unit) \<times> local_db" where
  "clearMatches d =
     (case initDB d of
        (Inl e, d') \<Rightarrow> (Inl e, d')
      | (Inr _, d') \<Rightarrow>
          (case request d' of
             (Some e, d'') \<Rightarrow> (Inl e, d'')
           | (None, d'') \<Rightarrow>
               (case commit d'' of
                  (Some e, d3) \<Rightarrow> (Inl e, d3)
                | (None, d3) \<Rightarrow> (Inr (), d3\<lparr>rows := []\<rparr>))))"

text \<open>
  \<open>counts\<close> is a plain object, modelled by its own properties in insertion order
  (JavaScript lists integer-like keys first; nothing here depends on the order). A count
  is a natural number; a double is exact far beyond any number of records. Reading \<open>counts[k]\<close> finds an own property, or else what
  \<open>Object.prototype\<close> holds under \<open>k\<close>, or else \<open>undefined\<close>. Writing \<open>counts[k] = v\<close>
  creates an own property, except for \<open>__proto__\<close>, whose setter ignores a value that is
  neither an object nor null.
\<close>

datatype js_value = Undefined | NaN | Number nat | String jsstring | Builtin jsstring

type_synonym js_object = "(jsstring \<times> js_value) list"

definition object_prototype_keys :: "jsstring list" where
  "object_prototype_keys =
     map js [''constructor'', ''__defineGetter__'', ''__defineSetter__'', ''hasOwnProperty'',
       ''__lookupGetter__'', ''__lookupSetter__'', ''isPrototypeOf'', ''propertyIsEnumerable'',
       ''toString'', ''valueOf'', ''__proto__'', ''toLocaleString'']"

definition get_property :: "js_object \<Rightarrow> jsstring \<Rightarrow> js_value" where
  "get_property obj k =
     (case map_of obj k of
        Some v \<Rightarrow> v
      | None \<Rightarrow> if k \<in> set object_prototype_keys then Builtin k else Undefined)"

definition set_property :: "js_object \<Rightarrow> jsstring \<Rightarrow> js_value \<Rightarrow> js_object" where
  "set_property obj k v = (if k = js ''__proto__'' then obj else AList.update k v obj)"

definition truthy :: "js_value \<Rightarrow> bool" where
  "truthy v =
     (case v of Undefined \<Rightarrow> False | NaN \<Rightarrow> False | Number n \<Rightarrow> n \<noteq> 0
      | String s \<Rightarrow> s \<noteq> [] | Builtin _ \<Rightarrow> True)"

text \<open>\<open>v || 0\<close> and \<open>v + 1\<close>; \<open>+\<close> concatenates when an operand is not a number.\<close>

definition or_zero :: "js_value \<Rightarrow> js_value" where
  "or_zero v = (if truthy v then v else Number 0)"

definition plus_one :: "host \<Rightarrow> js_value \<Rightarrow> js_value" where
  "plus_one h v =
     (case v of
        Undefined \<Rightarrow> NaN
      | NaN \<Rightarrow> NaN
      | Number n \<Rightarrow> Number (n + 1)
      | String s \<Rightarrow> String (s @ js ''1'')
      | Builtin k \<Rightarrow> String (native_text h k @ js ''1''))"

text \<open>
  The body of \<open>forEach\<close>: \<open>counts[m.entity] = (counts[m.entity] || 0) + 1\<close>, the same
  statement in \<open>getMatchesGrouped\<close> and in \<open>getAllEntitiesGrouped\<close> of \<open>db.ts\<close>.
\<close>

definition tally :: "host \<Rightarrow> js_object \<Rightarrow> nat \<times> match_record \<Rightarrow> js_object" where
  "tally h counts m =
     set_property counts (entity (snd m)) (plus_one h (or_zero (get_property counts (entity (snd m)))))"

definition getMatchesGrouped :: "host \<Rightarrow> local_db \<Rightarrow> (exn + js_object) \<times> local_db" where
  "getMatchesGrouped h d =
     (case init d of
        (Inl e, d') \<Rightarrow> (Inl e, d')
      | (Inr _, d') \<Rightarrow>
          (case request d' of
             (Some e, d'') \<Rightarrow> (Inl e, d'')
           | (None, d'') \<Rightarrow> (Inr (foldl (tally h) [] (rows d'')), d'')))"

definition getMatchesForEntity ::
  "local_db \<Rightarrow> jsstring \<Rightarrow> (exn + (nat \<times> match_record) list) \<times> local_db" where
  "getMatchesForEntity d e =
     (case init d of
        (Inl x, d') \<Rightarrow> (Inl x, d')
      | (Inr _, d') \<Rightarrow>
          (case request d' of
             (Some x, d'') \<Rightarrow> (Inl x, d'')
           | (None, d'') \<Rightarrow> (Inr (filter (\<lambda>m. entity (snd m) = e) (rows d'')), d'')))"

section \<open>The Page Scanner (EntityViewer.tsx, lines 209--243)\<close>

text \<open>\<open>items.map(item => item.str).join(' ')\<close>.\<close>

fun join :: "jsstring list \<Rightarrow> jsstring" where
  "join [] = []"
| "join [x] = x"
| "join (x # y # ys) = x @ [0x20] @ join (y # ys)"

text \<open>Lines 223--225: the bounds of the snippet and the snippet.\<close>

definition snippet_start :: "nat \<Rightarrow> int" where
  "snippet_start idx = max 0 (int idx - 30)"

definition snippet_end :: "jsstring \<Rightarrow> jsstring \<Rightarrow> nat \<Rightarrow> int" where
  "snippet_end fullPageString ent idx =
     min (int (length fullPageString)) (int idx + int (length ent) + 30)"

definition snippet_of :: "jsstring \<Rightarrow> jsstring \<Rightarrow> nat \<Rightarrow> jsstring" where
  "snippet_of fullPageString ent idx =
     js ''...'' @
     substring fullPageString (snippet_start idx) (snippet_end fullPageString ent idx) @
     js ''...''"

definition new_match ::
  "host \<Rightarrow> file_handle \<Rightarrow> nat \<Rightarrow> jsstring \<Rightarrow> jsstring \<Rightarrow> nat \<Rightarrow> nat \<Rightarrow> match_record" where
  "new_match h fh pageNum fullPageString ent idx n =
     \<lparr>entity = ent, fileName = name fh, pageNumber = pageNum,
      textSnippet = snippet_of fullPageString ent idx, fileHandle = fh, timestamp = clock h n\<rparr>"

text \<open>
  The loops inside a document change two things: the store and the local \<open>matchCount\<close>.
  An exception leaves them as they are at the throw, so a thrown result carries them too.
\<close>

type_synonym progress = "local_db \<times> nat"

text \<open>The body of the \<open>while\<close> loop, lines 223--235.\<close>

definition record_match ::
  "host \<Rightarrow> file_handle \<Rightarrow> nat \<Rightarrow> jsstring \<Rightarrow> jsstring \<Rightarrow> match_result \<Rightarrow> progress
     \<Rightarrow> exn \<times> progress + progress" where
  "record_match h fh pageNum fullPageString ent m p =
     (case p of (d, n) \<Rightarrow>
        (case addMatch d (new_match h fh pageNum fullPageString ent (index m) n) of
           (Inl e, d') \<Rightarrow> Inl (e, (d', n))
         | (Inr _, d') \<Rightarrow> Inr (d', Suc n)))"

text \<open>\<open>for (const entity of csvContent)\<close>, lines 219--237.\<close>

fun scan_entities ::
  "host \<Rightarrow> file_handle \<Rightarrow> nat \<Rightarrow> jsstring \<Rightarrow> jsstring list \<Rightarrow> progress
     \<Rightarrow> (exn \<times> progress + progress) option" where
  "scan_entities h fh pageNum fullPageString [] p = Some (Inr p)"
| "scan_entities h fh pageNum fullPageString (ent # ents) p =
     (case createExactMatchRegex ent True of
        None \<Rightarrow> Some (Inl (SyntaxError, p))
      | Some regex \<Rightarrow>
          (case while_exec (upper_case h) (record_match h fh pageNum fullPageString ent) regex
                  fullPageString p of
             None \<Rightarrow> None
           | Some (Inl x) \<Rightarrow> Some (Inl x)
           | Some (Inr p') \<Rightarrow> scan_entities h fh pageNum fullPageString ents p'))"

text \<open>\<open>for (let pageNum = 1; pageNum <= pdf.numPages; pageNum++)\<close>, lines 213--239.\<close>

fun scan_pages ::
  "host \<Rightarrow> jsstring list \<Rightarrow> file_handle \<Rightarrow> nat \<Rightarrow> page list \<Rightarrow> progress
     \<Rightarrow> (exn \<times> progress + progress) option" where
  "scan_pages h csv fh pageNum [] p = Some (Inr p)"
| "scan_pages h csv fh pageNum (pg # pgs) p =
     (case pg of
        UnloadablePage e \<Rightarrow> Some (Inl (e, p))
      | UnreadablePage e \<Rightarrow> Some (Inl (e, p))
      | Page items \<Rightarrow>
          (case scan_entities h fh pageNum (join items) csv p of
             None \<Rightarrow> None
           | Some (Inl x) \<Rightarrow> Some (Inl x)
           | Some (Inr p') \<Rightarrow> scan_pages h csv fh (Suc pageNum) pgs p'))"

text \<open>The body of the inner \<open>try\<close>, lines 210--240: decode, then the pages.\<close>

definition scan_document ::
  "host \<Rightarrow> jsstring list \<Rightarrow> file_handle \<Rightarrow> document \<Rightarrow> progress
     \<Rightarrow> (exn \<times> progress + progress) option" where
  "scan_document h csv fh doc p =
     (case doc of
        Corrupt e \<Rightarrow> Some (Inl (e, p))
      | Pdf pages \<Rightarrow> scan_pages h csv fh 1 pages p)"

section \<open>The Scan Orchestrator (EntityViewer.tsx, lines 162--261)\<close>

datatype log_entry =
    FileFailure jsstring exn
  | ScanFailure exn
  | LoadFailure exn

datatype alert = NoEntitiesLoaded | FileNotLoaded

datatype canvas = Blank | Painted jsstring nat "nat list"

text \<open>
  The state of the component (its React state and refs), the store it talks to, the two
  locals \<open>fileCount\<close> and \<open>matchCount\<close> of \<open>processDirectory\<close>, and what it has written to
  the console, shown in alerts and painted on the canvas (the file and page painted, and
  the indices of the highlighted text items).
\<close>

record app_state =
  db :: local_db
  csvContent :: "jsstring list"
  isProcessing :: bool
  filesProcessed :: nat
  matchesFound :: nat
  currentFile :: jsstring
  entityCounts :: js_object
  activeEntity :: "jsstring option"
  selectedMatch :: "match_record option"
  abortController :: bool
  fileCount :: nat
  matchCount :: nat
  console :: "log_entry list"
  alerts :: "alert list"
  pdfLibReady :: bool
  canvasMounted :: bool
  canvas :: canvas

definition refreshStats :: "host \<Rightarrow> app_state \<Rightarrow> exn \<times> app_state + app_state" where
  "refreshStats h st =
     (case getMatchesGrouped h (db st) of
        (Inl e, d) \<Rightarrow> Inl (e, st\<lparr>db := d\<rparr>)
      | (Inr counts, d) \<Rightarrow> Inr (st\<lparr>db := d, entityCounts := counts\<rparr>))"

definition stopProcessing :: "app_state \<Rightarrow> app_state" where
  "stopProcessing st = st\<lparr>abortController := True\<rparr>"

text \<open>
  Lines 174--177 and 352--355: \<open>await db.clear()\<close> and the three resets that follow it.
\<close>

definition clear_results :: "app_state \<Rightarrow> exn \<times> app_state + app_state" where
  "clear_results st =
     (case clear (db st) of
        (Inl e, d) \<Rightarrow> Inl (e, st\<lparr>db := d\<rparr>)
      | (Inr _, d) \<Rightarrow>
          Inr (st\<lparr>db := d, entityCounts := [], activeEntity := None, selectedMatch := None\<rparr>))"

text \<open>
  One iteration of \<open>for await (const fileHandle of ...)\<close> after the abort check, lines
  203--249. \<open>getFile()\<close> and \<open>arrayBuffer()\<close> are outside the inner \<open>try\<close>; so is the
  refresh of every fifth file.
\<close>

definition begin_file :: "file_handle \<Rightarrow> app_state \<Rightarrow> app_state" where
  "begin_file fh st =
     (let st1 = st\<lparr>fileCount := Suc (fileCount st)\<rparr>
      in st1\<lparr>filesProcessed := fileCount st1, currentFile := name fh\<rparr>)"

text \<open>
  The end of the inner \<open>try\<close>: what it threw is caught and logged (lines 241--243); then
  the statistics take the match count (line 245).
\<close>

definition end_document ::
  "file_handle \<Rightarrow> exn \<times> progress + progress \<Rightarrow> app_state \<Rightarrow> app_state" where
  "end_document fh r st =
     (let st3 =
            (case r of
               Inl (e, (d, n)) \<Rightarrow>
                 st\<lparr>db := d, matchCount := n,
                    console := console st @ [FileFailure (name fh) e]\<rparr>
             | Inr (d, n) \<Rightarrow> st\<lparr>db := d, matchCount := n\<rparr>)
      in st3\<lparr>matchesFound := matchCount st3\<rparr>)"

definition scan_file ::
  "host \<Rightarrow> file_handle \<Rightarrow> app_state \<Rightarrow> (exn \<times> app_state + app_state) option" where
  "scan_file h fh st =
     (let st2 = begin_file fh st
      in case contents fh of
           Unreadable e \<Rightarrow> Some (Inl (e, st2))
         | Readable doc \<Rightarrow>
             (case scan_document h (csvContent st2) fh doc (db st2, matchCount st2) of
                None \<Rightarrow> None
              | Some r \<Rightarrow>
                  (let st4 = end_document fh r st2
                   in if fileCount st4 mod 5 = 0 then Some (refreshStats h st4)
                      else Some (Inr st4))))"

text \<open>
  The loop over the file handles the directory walk yields. The Stop button may be
  pressed while a document is in flight: \<open>stop = Some k\<close> says that \<open>stopProcessing\<close> runs
  while the k-th document of the run is being processed (\<open>k = 0\<close>: before the first).
  The flag is read at the head of each iteration only (line 201).
\<close>

fun scan_files ::
  "host \<Rightarrow> nat option \<Rightarrow> file_handle list \<Rightarrow> app_state
     \<Rightarrow> (exn \<times> app_state + app_state) option" where
  "scan_files h stop [] st = Some (Inr st)"
| "scan_files h stop (fh # fhs) st =
     (if abortController st then Some (Inr st)
      else case scan_file h fh st of
             None \<Rightarrow> None
           | Some (Inl x) \<Rightarrow> Some (Inl x)
           | Some (Inr st') \<Rightarrow>
               scan_files h stop fhs
                 (if stop = Some (fileCount st') then stopProcessing st' else st'))"

text \<open>
  \<open>processDirectory\<close>, for the file handles \<open>files\<close> that the walk of the chosen directory
  yields; \<open>confirm\<close> is the user's answer to the question whether old results are to be
  deleted. A rejected \<open>db.clear()\<close> and a rejected final refresh leave the function as
  exceptions; whatever leaves the loop is caught and logged (lines 251--252).
\<close>

definition processDirectory ::
  "host \<Rightarrow> bool \<Rightarrow> nat option \<Rightarrow> file_handle list \<Rightarrow> app_state
     \<Rightarrow> (exn \<times> app_state + app_state) option" where
  "processDirectory h confirm stop files st =
     (if csvContent st = [] then Some (Inr (st\<lparr>alerts := alerts st @ [NoEntitiesLoaded]\<rparr>))
      else
        let st1 = st\<lparr>isProcessing := True, abortController := False\<rparr>
        in case (if entityCounts st1 \<noteq> [] \<and> confirm then clear_results st1 else Inr st1) of
             Inl x \<Rightarrow> Some (Inl x)
           | Inr st2 \<Rightarrow>
               (let st3 = st2\<lparr>fileCount := 0, matchCount := 0\<rparr>;
                    st4 = (if stop = Some 0 then stopProcessing st3 else st3)
                in case scan_files h stop files st4 of
                     None \<Rightarrow> None
                   | Some r \<Rightarrow>
                       (let st5 =
                              (case r of
                                 Inl (e, s) \<Rightarrow> s\<lparr>console := console s @ [ScanFailure e]\<rparr>
                               | Inr s \<Rightarrow> s);
                            st6 = st5\<lparr>isProcessing := False\<rparr>
                        in Some (refreshStats h st6))))"

section \<open>The Render Engine (EntityViewer.tsx, lines 286--348)\<close>

text \<open>
  Lines 298--341: load the file, decode it, fetch the page, paint it, then highlight the
  text items the non-global pattern of the entity matches.
\<close>

definition highlights :: "host \<Rightarrow> regexp \<Rightarrow> jsstring list \<Rightarrow> nat list" where
  "highlights h r items = filter (\<lambda>i. snd (test (upper_case h) r (items ! i))) [0..<length items]"

definition load_and_paint :: "host \<Rightarrow> match_record \<Rightarrow> app_state \<Rightarrow> exn \<times> app_state + app_state" where
  "load_and_paint h m st =
     (case contents (fileHandle m) of
        Unreadable e \<Rightarrow> Inl (e, st)
      | Readable (Corrupt e) \<Rightarrow> Inl (e, st)
      | Readable (Pdf pages) \<Rightarrow>
          if pageNumber m = 0 \<or> length pages < pageNumber m then Inl (PageException, st)
          else
            (case pages ! (pageNumber m - 1) of
               UnloadablePage e \<Rightarrow> Inl (e, st)
             | UnreadablePage e \<Rightarrow>
                 Inl (e, st\<lparr>canvas := Painted (name (fileHandle m)) (pageNumber m) []\<rparr>)
             | Page items \<Rightarrow>
                 (case createExactMatchRegex (entity m) False of
                    None \<Rightarrow>
                      Inl (SyntaxError,
                           st\<lparr>canvas := Painted (name (fileHandle m)) (pageNumber m) []\<rparr>)
                  | Some r \<Rightarrow>
                      Inr (st\<lparr>canvas :=
                             Painted (name (fileHandle m)) (pageNumber m) (highlights h r items)\<rparr>))))"

text \<open>The body of the \<open>try\<close>, with the permission check of lines 291--296 in front.\<close>

definition render_page :: "host \<Rightarrow> match_record \<Rightarrow> app_state \<Rightarrow> exn \<times> app_state + app_state" where
  "render_page h m st =
     (case queryPermission (fileHandle m) of
        Inl e \<Rightarrow> Inl (e, st)
      | Inr permission \<Rightarrow>
          if permission \<noteq> Granted then
            (case requestPermission (fileHandle m) of
               Inl e \<Rightarrow> Inl (e, st)
             | Inr req \<Rightarrow> if req \<noteq> Granted then Inr st else load_and_paint h m st)
          else load_and_paint h m st)"

definition loadAndRenderMatch :: "host \<Rightarrow> match_record \<Rightarrow> app_state \<Rightarrow> app_state" where
  "loadAndRenderMatch h m st =
     (let st1 = st\<lparr>selectedMatch := Some m\<rparr>
      in if \<not> pdfLibReady st1 \<or> \<not> canvasMounted st1 then st1
         else case render_page h m st1 of
                Inl (e, s) \<Rightarrow> s\<lparr>console := console s @ [LoadFailure e], alerts := alerts s @ [FileNotLoaded]\<rparr>
              | Inr s \<Rightarrow> s)"

text \<open>
  The multiset cardinality of an entity among the stored Match Records, in the words of
  the specification: what the grouped-count view is meant to report.
\<close>

definition entity_count :: "(nat \<times> match_record) list \<Rightarrow> jsstring \<Rightarrow> nat" where
  "entity_count rs e = length (filter (\<lambda>m. entity (snd m) = e) rs)"

text \<open>The store and counter (or the state) that a result carries, thrown or not.\<close>

definition progress_of :: "exn \<times> 's + 's \<Rightarrow> 's" where
  "progress_of res = (case res of Inl (e, p) \<Rightarrow> p | Inr p \<Rightarrow> p)"

text \<open>
  Reading the answers of the store: a sequence of answers in which every request was
  served, and one whose last answer is a rejection that surfaces as the exception \<open>x\<close>
  (the error of the request, or \<open>DBError\<close> when the rejected request was the opening of
  the database).
\<close>

definition served :: "exn option list \<Rightarrow> bool" where
  "served os = list_all (\<lambda>x. x = None) os"

definition rejected_with :: "exn \<Rightarrow> exn option list \<Rightarrow> bool" where
  "rejected_with x os \<longleftrightarrow>
     os \<noteq> [] \<and> served (butlast os) \<and> (last os = Some x \<or> (last os \<noteq> None \<and> x = DBError))"

section \<open>Sample inputs\<close>

text \<open>
  A host that answers as a Chromium-based browser does for ASCII text, a file handle
  with its read permission granted, an open, empty store on which every request
  succeeds and every transaction completes, and the state of the component at the start of a run with one entity loaded.
\<close>

definition sample_host :: host where
  "sample_host =
     \<lparr>upper_case = (\<lambda>c. c), clock = (\<lambda>n. 1000 + n),
      native_text = (\<lambda>k. if k = js ''constructor'' then js ''function Object() { [native code] }''
                          else if k = js ''__proto__'' then js ''[object Object]''
                          else js ''function '' @ k @ js ''() { [native code] }'')\<rparr>"

definition sample_handle :: "file_state \<Rightarrow> file_handle" where
  "sample_handle c =
     \<lparr>name = js ''a.pdf'', contents = c, queryPermission = Inr Granted,
      requestPermission = Inr Granted\<rparr>"

definition empty_db :: local_db where
  "empty_db = \<lparr>opened = True, rows = [], key_generator = 1, outcomes = [], commits = []\<rparr>"

text \<open>A Match Record whose file handle asks for the permission again and is refused.\<close>

definition denied_match :: match_record where
  "denied_match =
     \<lparr>entity = js ''cat'', fileName = js ''a.pdf'', pageNumber = 1,
      textSnippet = js ''...a Cat...'',
      fileHandle = (sample_handle (Readable (Pdf [Page [js ''a'', js ''Cat'']])))
        \<lparr>queryPermission := Inr Prompt, requestPermission := Inr Denied\<rparr>,
      timestamp = 1000\<rparr>"

definition sample_state :: app_state where
  "sample_state =
     \<lparr>db = empty_db, csvContent = [js ''cat''], isProcessing = True, filesProcessed = 0,
      matchesFound = 0, currentFile = [], entityCounts = [], activeEntity = None,
      selectedMatch = None, abortController = False, fileCount = 0, matchCount = 0,
      console = [], alerts = [], pdfLibReady = True, canvasMounted = True, canvas = Blank\<rparr>"

section \<open>Properties of the Matcher\<close>

subsection \<open>The pattern an entity is compiled to\<close>

lemma escape_class_syntax: "escape_class c = is_syntax_char c"
  by (auto simp: escape_class_def is_syntax_char_def)

lemma letter_b_not_syntax: "\<not> is_syntax_char letter_b"
  by (simp add: is_syntax_char_def letter_b_def)

lemma backslash_syntax: "is_syntax_char backslash"
  by (simp add: is_syntax_char_def backslash_def)

lemma parse_literal:
  "\<not> is_syntax_char c \<Longrightarrow> parse_pattern (c # cs) = map_option (Cons (Literal c)) (parse_pattern cs)"
  using backslash_syntax by (cases cs) auto

lemma parse_escaped:
  "is_syntax_char c \<Longrightarrow>
     parse_pattern (backslash # c # cs) = map_option (Cons (Literal c)) (parse_pattern cs)"
  using letter_b_not_syntax by auto

lemma parse_boundary:
  "parse_pattern (backslash # letter_b # cs) = map_option (Cons WordBoundary) (parse_pattern cs)"
  by simp

lemma parse_escapeRegExp:
  "parse_pattern (escapeRegExp e @ rest) = map_option ((@) (map Literal e)) (parse_pattern rest)"
proof (induction e)
  case Nil
  show ?case by (simp add: escapeRegExp_def option.map_ident)
next
  case (Cons c e)
  have IH: "parse_pattern (escapeRegExp e @ rest) = map_option ((@) (map Literal e)) (parse_pattern rest)"
    using Cons.IH .
  show ?case
  proof (cases "is_syntax_char c")
    case True
    then have "escapeRegExp (c # e) @ rest = backslash # c # (escapeRegExp e @ rest)"
      by (simp add: escapeRegExp_def escape_class_syntax)
    then show ?thesis
      using True IH by (simp add: parse_escaped option.map_comp comp_def del: parse_pattern.simps)
  next
    case False
    then have "escapeRegExp (c # e) @ rest = c # (escapeRegExp e @ rest)"
      by (simp add: escapeRegExp_def escape_class_syntax)
    then show ?thesis
      using False IH by (simp add: parse_literal option.map_comp comp_def del: parse_pattern.simps)
  qed
qed

lemma parse_pattern_source: "parse_pattern (pattern_source e) = Some (entity_nodes e)"
proof -
  have tail: "parse_pattern (if ends_with_word e then [backslash, letter_b] else []) =
      Some (if ends_with_word e then [WordBoundary] else [])"
    by simp
  have mid: "parse_pattern (escapeRegExp e @ (if ends_with_word e then [backslash, letter_b] else [])) =
      Some (map Literal e @ (if ends_with_word e then [WordBoundary] else []))"
    by (simp only: parse_escapeRegExp tail option.map)
  show ?thesis
  proof (cases "starts_with_word e")
    case True
    then show ?thesis
      using mid by (simp add: pattern_source_def entity_nodes_def Let_def del: parse_pattern.simps add: parse_boundary)
  next
    case False
    then show ?thesis
      using mid by (simp add: pattern_source_def entity_nodes_def Let_def del: parse_pattern.simps)
  qed
qed

lemma createExactMatchRegex_eq:
  "createExactMatchRegex e g =
     Some \<lparr>nodes = entity_nodes e, global = g, ignoreCase = True, lastIndex = 0\<rparr>"
  by (simp add: createExactMatchRegex_def new_RegExp_def parse_pattern_source js_def)

subsection \<open>Matching at one position\<close>

lemma match_literals:
  "i \<le> length s \<Longrightarrow> match_nodes uc ic (map Literal e @ ns) s i =
     (if i + length e \<le> length s \<and>
         map (canonicalize uc ic) (take (length e) (drop i s)) = map (canonicalize uc ic) e
      then match_nodes uc ic ns s (i + length e) else None)"
proof (induction e arbitrary: i)
  case Nil
  then show ?case by simp
next
  case (Cons c e)
  show ?case
  proof (cases "i < length s")
    case True
    then have d: "drop i s = s ! i # drop (Suc i) s"
      by (simp add: Cons_nth_drop_Suc)
    show ?thesis
      using True by (auto simp: Cons.IH d)
  next
    case False
    then show ?thesis by simp
  qed
qed

lemma word_char_ascii: "is_word_char c \<Longrightarrow> c < 0x80"
  unfolding is_word_char_def by (auto simp: word_le_nat_alt word_less_nat_alt)

lemma ascii_upper_ascii: "c < 0x80 \<Longrightarrow> ascii_upper c < 0x80"
  unfolding ascii_upper_def by (auto simp: word_le_nat_alt word_less_nat_alt unat_sub)

lemma canonicalize_non_ascii: "\<not> c < 0x80 \<Longrightarrow> \<not> canonicalize uc ic c < 0x80"
  by (simp add: canonicalize_def Let_def)

lemma ascii_upper_word:
  "ascii_upper a = ascii_upper c \<Longrightarrow> is_word_char c \<Longrightarrow> is_word_char a"
  unfolding ascii_upper_def is_word_char_def
  by (auto simp: word_le_nat_alt word_less_nat_alt unat_sub word_unat_eq_iff split: if_splits)

lemma canonicalize_word:
  assumes "canonicalize uc ic a = canonicalize uc ic c" and "is_word_char c"
  shows "is_word_char a"
proof (cases ic)
  case False
  with assms show ?thesis by (simp add: canonicalize_def)
next
  case True
  have c: "c < 0x80" using assms(2) by (rule word_char_ascii)
  then have "canonicalize uc ic c < 0x80"
    using True by (simp add: canonicalize_def ascii_upper_ascii)
  then have a: "a < 0x80"
    using assms(1) canonicalize_non_ascii [of a uc ic] by auto
  with c True assms(1) have "ascii_upper a = ascii_upper c"
    by (simp add: canonicalize_def)
  then show ?thesis using assms(2) by (rule ascii_upper_word)
qed

lemma occurs_at_nth:
  assumes "occurs_at uc e t i" and "j < length e"
  shows "canonicalize uc True (t ! (i + j)) = canonicalize uc True (e ! j)"
proof -
  have le: "i + length e \<le> length t"
    and eq: "map (canonicalize uc True) (take (length e) (drop i t)) = map (canonicalize uc True) e"
    using assms(1) by (simp_all add: occurs_at_def)
  have "map (canonicalize uc True) (take (length e) (drop i t)) ! j = map (canonicalize uc True) e ! j"
    by (simp only: eq)
  moreover have "j < length (take (length e) (drop i t))"
    using le assms(2) by simp
  ultimately show ?thesis
    using le assms(2) by (simp add: nth_append)
qed

lemma is_word_at_before: "is_word_at t (int i - 1) \<longleftrightarrow> \<not> (i = 0 \<or> \<not> is_word_char (t ! (i - 1))) \<and> i \<le> length t"
  by (cases i) (auto simp: is_word_at_def nat_diff_distrib)

lemma is_word_at_here: "is_word_at t (int k) \<longleftrightarrow> \<not> (length t \<le> k \<or> \<not> is_word_char (t ! k))"
  by (auto simp: is_word_at_def)

lemma occurs_at_first_word:
  assumes "occurs_at uc e t i" and "starts_with_word e"
  shows "is_word_at t (int i)"
proof -
  from assms(2) obtain c cs where e: "e = c # cs" and w: "is_word_char c"
    by (auto simp: starts_with_word_def split: list.splits)
  have "canonicalize uc True (t ! (i + 0)) = canonicalize uc True (e ! 0)"
    using assms(1) e by (intro occurs_at_nth) simp_all
  then have "is_word_char (t ! i)"
    using w e canonicalize_word [of uc True "t ! i" c] by simp
  moreover have "i < length t"
    using assms(1) e by (simp add: occurs_at_def)
  ultimately show ?thesis
    by (simp add: is_word_at_def)
qed

lemma occurs_at_last_word:
  assumes "occurs_at uc e t i" and "ends_with_word e"
  shows "is_word_at t (int (i + length e) - 1)"
proof -
  from assms(2) have ne: "e \<noteq> []" and w: "is_word_char (last e)"
    by (simp_all add: ends_with_word_def)
  have "canonicalize uc True (t ! (i + (length e - 1))) = canonicalize uc True (e ! (length e - 1))"
    using assms(1) ne by (intro occurs_at_nth) simp_all
  then have "is_word_char (t ! (i + (length e - 1)))"
    using w ne canonicalize_word [of uc True "t ! (i + (length e - 1))" "last e"]
    by (simp add: last_conv_nth)
  moreover have "i + (length e - 1) < length t"
    using assms(1) ne by (simp add: occurs_at_def) (cases e; simp)
  moreover have "int (i + length e) - 1 = int (i + (length e - 1))"
    using ne by (cases e) simp_all
  ultimately show ?thesis
    by (simp only: is_word_at_here) simp
qed

lemma match_entity:
  assumes "i \<le> length t"
  shows "match_nodes uc True (entity_nodes e) t i =
     (if occurs_at uc e t i \<and> boundary_rule e t i then Some (i + length e) else None)"
proof (cases "occurs_at uc e t i")
  case False
  then have none: "\<And>ns. match_nodes uc True (map Literal e @ ns) t i = None"
    using assms by (auto simp: match_literals occurs_at_def)
  show ?thesis
    using False none [of "[]"] none [of "[WordBoundary]"] by (simp add: entity_nodes_def)
next
  case True
  then have lits: "\<And>ns. match_nodes uc True (map Literal e @ ns) t i = match_nodes uc True ns t (i + length e)"
    using assms by (simp add: match_literals occurs_at_def)
  have lits0: "match_nodes uc True (map Literal e) t i = Some (i + length e)"
    using lits [of "[]"] by simp
  have fst: "starts_with_word e \<Longrightarrow> is_word_at t (int i)"
    using True by (rule occurs_at_first_word)
  have lst: "ends_with_word e \<Longrightarrow> is_word_at t (int (i + length e) - 1)"
    using True by (rule occurs_at_last_word)
  have b1: "starts_with_word e \<Longrightarrow>
      (is_word_at t (int i - 1) \<noteq> is_word_at t (int i)) = (i = 0 \<or> \<not> is_word_char (t ! (i - 1)))"
    using fst assms by (simp add: is_word_at_before)
  have b2: "ends_with_word e \<Longrightarrow>
      (is_word_at t (int (i + length e) - 1) \<noteq> is_word_at t (int (i + length e))) =
      (length t \<le> i + length e \<or> \<not> is_word_char (t ! (i + length e)))"
    using lst is_word_at_here [of t "i + length e"] by simp
  show ?thesis
  proof (cases "starts_with_word e")
    case sw: True
    show ?thesis
    proof (cases "ends_with_word e")
      case ew: True
      show ?thesis
        using True sw ew b1 b2 by (simp add: entity_nodes_def lits boundary_rule_def)
    next
      case ew: False
      show ?thesis
        using True sw ew b1 lits0 by (simp add: entity_nodes_def boundary_rule_def)
    qed
  next
    case sw: False
    show ?thesis
    proof (cases "ends_with_word e")
      case ew: True
      show ?thesis
        using True sw ew b2 lits [of "[WordBoundary]"] by (simp add: entity_nodes_def boundary_rule_def)
    next
      case ew: False
      show ?thesis
        using True sw ew lits0 by (simp add: entity_nodes_def boundary_rule_def)
    qed
  qed
qed

subsection \<open>The search and the extraction loop\<close>

lemma createExactMatchRegex_global: "createExactMatchRegex e True = Some (entity_regex e 0)"
  by (simp add: createExactMatchRegex_eq entity_regex_def)

lemma search_from_Some:
  "search_from uc r t i = Some (j, k) \<Longrightarrow>
     i \<le> j \<and> j \<le> length t \<and> match_nodes uc (ignoreCase r) (nodes r) t j = Some k"
proof (induction uc r t i rule: search_from.induct)
  case (1 uc r s i)
  show ?case
  proof (cases "match_nodes uc (ignoreCase r) (nodes r) s i")
    case None
    with "1.prems" have le: "\<not> length s < i" and rec: "search_from uc r s (Suc i) = Some (j, k)"
      by (subst (asm) search_from.simps; simp split: if_splits)+
    from "1.IH" [OF le None rec] show ?thesis by simp
  next
    case (Some e)
    with "1.prems" show ?thesis by (subst (asm) search_from.simps) (auto split: if_splits)
  qed
qed

lemma exec_entity_Some:
  assumes "exec uc (entity_regex e li) t = (r', Some m)"
  shows "r' = entity_regex e (index m + length e) \<and> li \<le> index m \<and>
         occurs_at uc e t (index m) \<and> boundary_rule e t (index m) \<and>
         matched m = take (length e) (drop (index m) t)"
proof -
  from assms obtain j k where s: "search_from uc (entity_regex e li) t li = Some (j, k)"
    and r': "r' = entity_regex e k" and m: "m = \<lparr>index = j, matched = take (k - j) (drop j t)\<rparr>"
    by (auto simp: exec_def entity_regex_def split: option.splits)
  from search_from_Some [OF s] have lj: "li \<le> j" and jt: "j \<le> length t"
    and mn: "match_nodes uc True (entity_nodes e) t j = Some k"
    by (simp_all add: entity_regex_def)
  from mn jt have "occurs_at uc e t j \<and> boundary_rule e t j \<and> k = j + length e"
    by (simp add: match_entity split: if_splits)
  then show ?thesis
    using r' m lj by simp
qed

lemma exec_entity_None:
  assumes "exec uc (entity_regex e li) t = (r', None)"
  shows "r' = entity_regex e 0"
  using assms by (auto simp: exec_def entity_regex_def split: option.splits)

lemma while_exec_entity:
  assumes ne: "e \<noteq> []"
    and inv: "I li st"
    and step: "\<And>li st m. I li st \<Longrightarrow>
        exec uc (entity_regex e li) t = (entity_regex e (index m + length e), Some m) \<Longrightarrow>
        (case body m st of Inl x \<Rightarrow> Q (Inl x) | Inr st' \<Rightarrow> I (index m + length e) st')"
    and fin: "\<And>li st. I li st \<Longrightarrow> exec uc (entity_regex e li) t = (entity_regex e 0, None) \<Longrightarrow>
        Q (Inr st)"
  shows "\<exists>res. while_exec uc body (entity_regex e li) t st = Some res \<and> Q res"
  using inv
proof (induction "Suc (length t) - li" arbitrary: li st rule: less_induct)
  case less
  obtain r' mo where ex: "exec uc (entity_regex e li) t = (r', mo)"
    by (cases "exec uc (entity_regex e li) t")
  show ?case
  proof (cases mo)
    case None
    with ex have r': "r' = entity_regex e 0" by (simp add: exec_entity_None)
    have "Q (Inr st)"
      using fin [OF less.prems] ex None r' by simp
    moreover have "while_exec uc body (entity_regex e li) t st = Some (Inr st)"
      using ex None by (subst while_exec.simps) simp
    ultimately show ?thesis by simp
  next
    case (Some m)
    from exec_entity_Some [OF ex [unfolded Some]]
    have r': "r' = entity_regex e (index m + length e)" and li: "li \<le> index m"
      and occ: "occurs_at uc e t (index m)"
      by simp_all
    have bnd: "index m + length e \<le> length t"
      using occ by (simp add: occurs_at_def)
    have pos: "0 < length e" using ne by simp
    have unfold: "while_exec uc body (entity_regex e li) t st =
        (case body m st of Inl x \<Rightarrow> Some (Inl x)
         | Inr st' \<Rightarrow> while_exec uc body (entity_regex e (index m + length e)) t st')"
      using ex Some r' by (subst while_exec.simps) simp
    have st: "case body m st of Inl x \<Rightarrow> Q (Inl x) | Inr st' \<Rightarrow> I (index m + length e) st'"
      using step [OF less.prems] ex Some r' by simp
    show ?thesis
    proof (cases "body m st")
      case (Inl x)
      with st unfold show ?thesis by simp
    next
      case (Inr st')
      with st have I': "I (index m + length e) st'" by simp
      have "Suc (length t) - (index m + length e) < Suc (length t) - li"
        using li bnd pos by linarith
      from less.hyps [OF this I'] show ?thesis
        using unfold Inr by simp
    qed
  qed
qed

lemma while_exec_unfold:
  "while_exec uc body r s st =
     (if snd (exec uc r s) = None then Some (Inr st)
      else case body (the (snd (exec uc r s))) st of
             Inl e \<Rightarrow> Some (Inl e)
           | Inr st' \<Rightarrow> while_exec uc body (fst (exec uc r s)) s st')"
proof -
  obtain r' mo where e: "exec uc r s = (r', mo)"
    by (cases "exec uc r s")
  show ?thesis
    by (subst while_exec.simps) (cases mo; simp add: e cong: sum.case_cong)
qed

lemma findAll_loop:
  assumes ne: "e \<noteq> []"
  shows "\<exists>res. while_exec uc (\<lambda>m ms. Inr (ms @ [m])) (entity_regex e 0) t [] = Some res \<and>
     (\<exists>ms. res = (Inr ms :: unit + match_result list) \<and> non_overlapping ms \<and>
        (\<forall>m \<in> set ms. occurs_at uc e t (index m) \<and> boundary_rule e t (index m) \<and>
           matched m = take (length e) (drop (index m) t)))"
proof -
  define V where "V = (\<lambda>m :: match_result. occurs_at uc e t (index m) \<and> boundary_rule e t (index m) \<and>
           matched m = take (length e) (drop (index m) t))"
  define I where "I = (\<lambda>li ms. non_overlapping ms \<and>
        (\<forall>m \<in> set ms. index m + length (matched m) \<le> li \<and> V m))"
  define Q where "Q = (\<lambda>res :: unit + match_result list.
        \<exists>ms. res = Inr ms \<and> non_overlapping ms \<and> (\<forall>m \<in> set ms. V m))"
  have init: "I 0 []"
    by (simp add: I_def non_overlapping_def)
  have step: "case (Inr (ms @ [m]) :: unit + match_result list) of
      Inl x \<Rightarrow> Q (Inl x) | Inr st' \<Rightarrow> I (index m + length e) st'"
    if I: "I li ms"
      and ex: "exec uc (entity_regex e li) t = (entity_regex e (index m + length e), Some m)"
    for li ms m
  proof -
    from exec_entity_Some [OF ex] have li: "li \<le> index m" and occ: "occurs_at uc e t (index m)"
      and br: "boundary_rule e t (index m)" and mm: "matched m = take (length e) (drop (index m) t)"
      by simp_all
    have len: "length (matched m) = length e"
      using occ mm by (auto simp: occurs_at_def min_def)
    have "non_overlapping (ms @ [m])"
      using I li by (auto simp: I_def non_overlapping_def sorted_wrt_append)
    moreover have "V m"
      using occ br mm by (simp add: V_def)
    moreover have "\<forall>m' \<in> set ms. index m' + length (matched m') \<le> index m + length e \<and> V m'"
      using I li by (fastforce simp: I_def)
    ultimately have "I (index m + length e) (ms @ [m])"
      using len by (simp add: I_def)
    then show ?thesis by simp
  qed
  have fin: "Q (Inr ms)" if "I li ms" for li ms
    using that by (auto simp: I_def Q_def)
  from while_exec_entity [where I = I and Q = Q and body = "\<lambda>m ms. Inr (ms @ [m])" and uc = uc
      and t = t, OF ne init step fin]
  show ?thesis
    by (simp add: Q_def V_def)
qed

lemma search_from_skipped:
  "search_from uc r t i = Some (j, k) \<Longrightarrow> i \<le> l \<Longrightarrow> l < j \<Longrightarrow>
     match_nodes uc (ignoreCase r) (nodes r) t l = None"
proof (induction uc r t i rule: search_from.induct)
  case (1 uc r s i)
  show ?case
  proof (cases "match_nodes uc (ignoreCase r) (nodes r) s i")
    case None
    with "1.prems"(1) have le: "\<not> length s < i" and rec: "search_from uc r s (Suc i) = Some (j, k)"
      by (subst (asm) search_from.simps; simp split: if_splits)+
    show ?thesis
    proof (cases "l = i")
      case True
      with None show ?thesis by simp
    next
      case False
      with "1.prems"(2) have "Suc i \<le> l" by simp
      from "1.IH" [OF le None rec this "1.prems"(3)] show ?thesis .
    qed
  next
    case (Some e)
    with "1.prems"(1) have "j = i"
      by (subst (asm) search_from.simps) (auto split: if_splits)
    with "1.prems"(2,3) show ?thesis by simp
  qed
qed

lemma search_from_None:
  "search_from uc r t i = None \<Longrightarrow> i \<le> l \<Longrightarrow> l \<le> length t \<Longrightarrow>
     match_nodes uc (ignoreCase r) (nodes r) t l = None"
proof (induction uc r t i rule: search_from.induct)
  case (1 uc r s i)
  from "1.prems"(2,3) have le: "\<not> length s < i" by simp
  show ?case
  proof (cases "match_nodes uc (ignoreCase r) (nodes r) s i")
    case None
    with "1.prems"(1) le have rec: "search_from uc r s (Suc i) = None"
      by (subst (asm) search_from.simps) simp
    show ?thesis
    proof (cases "l = i")
      case True
      with None show ?thesis by simp
    next
      case False
      with "1.prems"(2) have "Suc i \<le> l" by simp
      from "1.IH" [OF le None rec this "1.prems"(3)] show ?thesis .
    qed
  next
    case (Some e)
    with "1.prems"(1) le show ?thesis
      by (subst (asm) search_from.simps) simp
  qed
qed

lemma exec_entity_skipped:
  assumes "exec uc (entity_regex e li) t = (r', Some m)" "li \<le> l" "l < index m"
  shows "\<not> (occurs_at uc e t l \<and> boundary_rule e t l)"
proof -
  from assms(1) obtain j k where s: "search_from uc (entity_regex e li) t li = Some (j, k)"
    and m: "m = \<lparr>index = j, matched = take (k - j) (drop j t)\<rparr>"
    by (auto simp: exec_def entity_regex_def split: option.splits)
  from search_from_Some [OF s] have jt: "j \<le> length t" by simp
  from search_from_skipped [OF s assms(2)] assms(3) m
  have "match_nodes uc True (entity_nodes e) t l = None"
    by (simp add: entity_regex_def)
  moreover have "l \<le> length t" using assms(3) m jt by simp
  ultimately show ?thesis
    by (simp add: match_entity split: if_splits)
qed

lemma exec_entity_exhausted:
  assumes "exec uc (entity_regex e li) t = (r', None)" "li \<le> l"
  shows "\<not> (occurs_at uc e t l \<and> boundary_rule e t l)"
proof (cases "l \<le> length t")
  case True
  from assms(1) have s: "search_from uc (entity_regex e li) t li = None"
    by (auto simp: exec_def entity_regex_def split: option.splits)
  from search_from_None [OF s assms(2) True]
  have "match_nodes uc True (entity_nodes e) t l = None"
    by (simp add: entity_regex_def)
  with True show ?thesis
    by (simp add: match_entity split: if_splits)
next
  case False
  then show ?thesis by (simp add: occurs_at_def)
qed

lemma findAll_loop_covers:
  assumes ne: "e \<noteq> []"
  shows "\<exists>res. while_exec uc (\<lambda>m ms. Inr (ms @ [m])) (entity_regex e 0) t [] = Some res \<and>
     (\<exists>ms. res = (Inr ms :: unit + match_result list) \<and>
        (\<forall>i. occurs_at uc e t i \<and> boundary_rule e t i \<longrightarrow> covered e ms i))"
proof -
  define V where "V = (\<lambda>i. occurs_at uc e t i \<and> boundary_rule e t i)"
  define I where "I = (\<lambda>li ms. \<forall>i < li. V i \<longrightarrow> covered e ms i)"
  define Q where "Q = (\<lambda>res :: unit + match_result list.
        \<exists>ms. res = Inr ms \<and> (\<forall>i. V i \<longrightarrow> covered e ms i))"
  have init: "I 0 []"
    by (simp add: I_def)
  have step: "case (Inr (ms @ [m]) :: unit + match_result list) of
      Inl x \<Rightarrow> Q (Inl x) | Inr st' \<Rightarrow> I (index m + length e) st'"
    if I: "I li ms"
      and ex: "exec uc (entity_regex e li) t = (entity_regex e (index m + length e), Some m)"
    for li ms m
  proof -
    have "covered e (ms @ [m]) i" if v: "V i" and lt: "i < index m + length e" for i
    proof (cases "i < li")
      case True
      with I v have "covered e ms i" by (simp add: I_def)
      then show ?thesis by (auto simp: covered_def)
    next
      case False
      then have li: "li \<le> i" by simp
      have "\<not> i < index m"
        using exec_entity_skipped [OF ex li] v by (auto simp: V_def)
      with lt show ?thesis by (simp add: covered_def)
    qed
    then have "I (index m + length e) (ms @ [m])"
      by (simp add: I_def)
    then show ?thesis by simp
  qed
  have fin: "Q (Inr ms)" if I: "I li ms"
    and ex: "exec uc (entity_regex e li) t = (entity_regex e 0, None)" for li ms
  proof -
    have "covered e ms i" if v: "V i" for i
    proof (cases "i < li")
      case True
      with I v show ?thesis by (simp add: I_def)
    next
      case False
      then have "li \<le> i" by simp
      from exec_entity_exhausted [OF ex this] v show ?thesis by (simp add: V_def)
    qed
    then show ?thesis by (simp add: Q_def)
  qed
  from while_exec_entity [where I = I and Q = Q and body = "\<lambda>m ms. Inr (ms @ [m])" and uc = uc
      and t = t, OF ne init step fin]
  show ?thesis
    by (simp add: Q_def V_def)
qed


lemma findAll_Cat:
  "findAll (\<lambda>c. c) (js ''Cat'') (js ''The Catalog cat sat'') =
     Some (Inr [\<lparr>index = 12, matched = js ''cat''\<rparr>])"
  by (simp add: findAll_def createExactMatchRegex_eq entity_nodes_def starts_with_word_def
      ends_with_word_def is_word_char_def js_def while_exec_unfold exec_def search_from.simps
      canonicalize_def ascii_upper_def is_word_at_def)

text \<open>
  Claim C1. For every (non-empty) entity \<open>E\<close> and every text \<open>T\<close>, the pattern built for
  \<open>E\<close> consists of the characters of \<open>E\<close> as literals between the word-boundary
  assertions its first and last character ask for, so no character of \<open>E\<close> keeps a
  special meaning. The extraction loop returns, and the occurrences it extracts do not
  overlap; each is a slice of \<open>T\<close> that equals \<open>E\<close> up to case, and satisfies the boundary
  rule: when \<open>E\<close> starts with a word character the match starts the text or follows a
  character that is not a word character, and when \<open>E\<close> ends with a word character the
  match ends the text or is followed by a character that is not a word character.
  Nothing is missed but what an earlier occurrence overlaps: every position at which
  \<open>E\<close> occurs up to case with the boundary rule satisfied lies inside an extracted
  occurrence.
\<close>

theorem findAll_non_overlapping_boundary:
  assumes "E \<noteq> []"
  shows "map_option nodes (createExactMatchRegex E True) = Some (entity_nodes E) \<and>
     (\<exists>ms. findAll uc E T = Some (Inr ms) \<and> non_overlapping ms \<and>
        (\<forall>m \<in> set ms. occurs_at uc E T (index m) \<and> boundary_rule E T (index m) \<and>
           matched m = take (length E) (drop (index m) T)) \<and>
        (\<forall>i. occurs_at uc E T i \<and> boundary_rule E T i \<longrightarrow> covered E ms i))"
proof -
  from findAll_loop [OF assms, of uc T] obtain ms
    where ms: "while_exec uc (\<lambda>m ms. Inr (ms @ [m])) (entity_regex E 0) T [] =
        Some (Inr ms :: unit + match_result list)"
      and sound: "non_overlapping ms"
        "\<forall>m \<in> set ms. occurs_at uc E T (index m) \<and> boundary_rule E T (index m) \<and>
           matched m = take (length E) (drop (index m) T)"
    by auto
  from findAll_loop_covers [OF assms, of uc T] ms
  have "\<forall>i. occurs_at uc E T i \<and> boundary_rule E T i \<longrightarrow> covered E ms i"
    by auto
  with ms sound show ?thesis
    by (simp add: findAll_def createExactMatchRegex_global entity_regex_def)
qed

theorem findAll_non_overlapping_boundary_witness:
  "js ''Cat'' \<noteq> [] \<and>
   findAll (\<lambda>c. c) (js ''Cat'') (js ''The Catalog cat sat'') =
     Some (Inr [\<lparr>index = 12, matched = js ''cat''\<rparr>]) \<and>
   occurs_at (\<lambda>c. c) (js ''Cat'') (js ''The Catalog cat sat'') 12 \<and>
   boundary_rule (js ''Cat'') (js ''The Catalog cat sat'') 12"
proof -
  have ne: "js ''Cat'' \<noteq> []"
    by (simp add: js_def)
  from findAll_non_overlapping_boundary [OF ne, of "\<lambda>c. c" "js ''The Catalog cat sat''"]
  obtain ms where ms: "findAll (\<lambda>c. c) (js ''Cat'') (js ''The Catalog cat sat'') = Some (Inr ms)"
    and all: "\<forall>m \<in> set ms. occurs_at (\<lambda>c. c) (js ''Cat'') (js ''The Catalog cat sat'') (index m) \<and>
       boundary_rule (js ''Cat'') (js ''The Catalog cat sat'') (index m)"
    by blast
  from ms have "ms = [\<lparr>index = 12, matched = js ''cat''\<rparr>]"
    by (simp only: findAll_Cat option.inject sum.inject)
  with all ms ne show ?thesis
    by simp
qed

section \<open>Properties of the Page Scanner\<close>

subsection \<open>Invariants of the loops inside a document\<close>

lemma scan_entities_rule:
  assumes ne: "[] \<notin> set ents"
    and inv: "I p"
    and ins: "\<And>d n ent idx. I (d, n) \<Longrightarrow> ent \<in> set ents \<Longrightarrow> occurs_at (upper_case h) ent s idx \<Longrightarrow>
        (case addMatch d (new_match h fh pageNum s ent idx n) of
           (Inl e, d') \<Rightarrow> Q (Inl (e, (d', n)))
         | (Inr u, d') \<Rightarrow> I (d', Suc n))"
    and fin: "\<And>p. I p \<Longrightarrow> Q (Inr p)"
  shows "\<exists>res. scan_entities h fh pageNum s ents p = Some res \<and> Q res"
  using ne inv ins
proof (induction ents arbitrary: p)
  case Nil
  then show ?case using fin by simp
next
  case (Cons ent ents)
  have ent: "ent \<noteq> []" using Cons.prems(1) by auto
  define Q' where "Q' = (\<lambda>res :: exn \<times> progress + progress.
      case res of Inl x \<Rightarrow> Q (Inl x) | Inr p' \<Rightarrow> I p')"
  have step: "case record_match h fh pageNum s ent m p of
      Inl x \<Rightarrow> Q' (Inl x) | Inr p' \<Rightarrow> I p'"
    if "I p" and ex: "exec (upper_case h) (entity_regex ent li) s =
        (entity_regex ent (index m + length ent), Some m)" for li p m
  proof -
    obtain d n where p: "p = (d, n)" by (cases p)
    have occ: "occurs_at (upper_case h) ent s (index m)"
      using exec_entity_Some [OF ex] by simp
    have "case addMatch d (new_match h fh pageNum s ent (index m) n) of
           (Inl e, d') \<Rightarrow> Q (Inl (e, (d', n)))
         | (Inr u, d') \<Rightarrow> I (d', Suc n)"
      using Cons.prems(3) [of d n ent "index m"] that(1) occ p by simp
    then show ?thesis
      by (auto simp: record_match_def p Q'_def split: prod.splits sum.splits)
  qed
  have fin': "Q' (Inr p)" if "I p" for p
    using that by (simp add: Q'_def)
  have "\<exists>res. while_exec (upper_case h) (record_match h fh pageNum s ent)
      (entity_regex ent 0) s p = Some res \<and> Q' res"
  proof (rule while_exec_entity [where I = "\<lambda>li. I" and Q = Q'])
    show "ent \<noteq> []" by (rule ent)
    show "I p" by (rule Cons.prems(2))
    show "case record_match h fh pageNum s ent m st of
        Inl x \<Rightarrow> Q' (Inl x) | Inr p' \<Rightarrow> I p'"
      if "I st" and "exec (upper_case h) (entity_regex ent li) s =
        (entity_regex ent (index m + length ent), Some m)" for li st m
      using that by (rule step)
    show "Q' (Inr st)" if "I st" for li st
      using that by (rule fin')
  qed
  then obtain res where res: "while_exec (upper_case h) (record_match h fh pageNum s ent)
      (entity_regex ent 0) s p = Some res" and q: "Q' res"
    by blast
  show ?case
  proof (cases res)
    case (Inl x)
    with res q show ?thesis
      by (simp add: createExactMatchRegex_global Q'_def)
  next
    case (Inr p')
    with q have I': "I p'" by (simp add: Q'_def)
    have "\<exists>res. scan_entities h fh pageNum s ents p' = Some res \<and> Q res"
      using Cons.prems(1) Cons.prems(3) by (intro Cons.IH [OF _ I']) auto
    then show ?thesis
      using res Inr by (simp add: createExactMatchRegex_global)
  qed
qed

lemma scan_pages_rule:
  assumes ne: "[] \<notin> set csv"
    and inv: "I p"
    and ins: "\<And>d n pn s ent idx. I (d, n) \<Longrightarrow> ent \<in> set csv \<Longrightarrow>
        occurs_at (upper_case h) ent s idx \<Longrightarrow>
        (case addMatch d (new_match h fh pn s ent idx n) of
           (Inl e, d') \<Rightarrow> Q (Inl (e, (d', n)))
         | (Inr u, d') \<Rightarrow> I (d', Suc n))"
    and exn: "\<And>p e. I p \<Longrightarrow> Q (Inl (e, p))"
    and fin: "\<And>p. I p \<Longrightarrow> Q (Inr p)"
  shows "\<exists>res. scan_pages h csv fh pageNum pgs p = Some res \<and> Q res"
  using inv
proof (induction pgs arbitrary: p pageNum)
  case Nil
  then show ?case using fin by simp
next
  case (Cons pg pgs)
  show ?case
  proof (cases pg)
    case (Page items)
    define Q' where "Q' = (\<lambda>res :: exn \<times> progress + progress.
        case res of Inl x \<Rightarrow> Q (Inl x) | Inr p' \<Rightarrow> I p')"
    have ins': "case addMatch d (new_match h fh pageNum (join items) ent idx n) of
           (Inl e, d') \<Rightarrow> Q' (Inl (e, (d', n)))
         | (Inr u, d') \<Rightarrow> I (d', Suc n)"
      if "I (d, n)" "ent \<in> set csv" "occurs_at (upper_case h) ent (join items) idx" for d n ent idx
      using ins [OF that, of pageNum] by (auto simp: Q'_def split: prod.splits sum.splits)
    have fin': "Q' (Inr p)" if "I p" for p
      using that by (simp add: Q'_def)
    from scan_entities_rule [where I = I and Q = Q', OF ne Cons.prems ins' fin']
    obtain res where res: "scan_entities h fh pageNum (join items) csv p = Some res"
      and q: "Q' res"
      by blast
    show ?thesis
    proof (cases res)
      case (Inl x)
      with res q Page show ?thesis by (simp add: Q'_def)
    next
      case (Inr p')
      with q have "I p'" by (simp add: Q'_def)
      from Cons.IH [OF this, of "Suc pageNum"] show ?thesis
        using res Inr Page by simp
    qed
  next
    case (UnloadablePage e)
    then show ?thesis using exn [OF Cons.prems] by simp
  next
    case (UnreadablePage e)
    then show ?thesis using exn [OF Cons.prems] by simp
  qed
qed

lemma scan_document_rule:
  assumes ne: "[] \<notin> set csv"
    and inv: "I p"
    and ins: "\<And>d n pn s ent idx. I (d, n) \<Longrightarrow> ent \<in> set csv \<Longrightarrow>
        occurs_at (upper_case h) ent s idx \<Longrightarrow>
        (case addMatch d (new_match h fh pn s ent idx n) of
           (Inl e, d') \<Rightarrow> Q (Inl (e, (d', n)))
         | (Inr u, d') \<Rightarrow> I (d', Suc n))"
    and exn: "\<And>p e. I p \<Longrightarrow> Q (Inl (e, p))"
    and fin: "\<And>p. I p \<Longrightarrow> Q (Inr p)"
  shows "\<exists>res. scan_document h csv fh doc p = Some res \<and> Q res"
proof (cases doc)
  case (Corrupt e)
  then show ?thesis using exn [OF inv] by (simp add: scan_document_def)
next
  case (Pdf pages)
  have "\<exists>res. scan_pages h csv fh 1 pages p = Some res \<and> Q res"
    using ne inv ins exn fin by (rule scan_pages_rule [where I = I and Q = Q])
  then show ?thesis using Pdf by (simp add: scan_document_def)
qed

subsection \<open>Rows of the store, and the snippet\<close>

lemma request_rows:
  "request d = (x, d') \<Longrightarrow>
     rows d' = rows d \<and> key_generator d' = key_generator d \<and> opened d' = opened d \<and>
     commits d' = commits d"
  by (cases "outcomes d") (auto simp: request_def)

lemma commit_rows:
  "commit d = (x, d') \<Longrightarrow>
     rows d' = rows d \<and> key_generator d' = key_generator d \<and> opened d' = opened d \<and>
     outcomes d' = outcomes d"
  by (cases "commits d") (auto simp: commit_def)

lemma commit_answer: "commits d' = commits d \<Longrightarrow> fst (commit d') = fst (commit d)"
  by (cases "commits d") (simp_all add: commit_def)

lemma init_rows:
  assumes "init d = (x, d')"
  shows "rows d' = rows d \<and> key_generator d' = key_generator d \<and> commits d' = commits d"
proof (cases "opened d")
  case True
  with assms show ?thesis by (simp add: init_def)
next
  case False
  obtain y d1 where r: "request d = (y, d1)" by (cases "request d")
  from request_rows [OF r] assms False r show ?thesis
    by (cases y) (auto simp: init_def)
qed

lemma addMatch_rows:
  assumes "addMatch d m = (x, d')"
  shows "(x = Inr () \<and> rows d' = rows d @ [(key_generator d, m)]) \<or>
         (x = Inr () \<and> rows d' = rows d) \<or>
         ((\<exists>e. x = Inl e) \<and> rows d' = rows d)"
proof -
  obtain x1 d1 where i: "init d = (x1, d1)" by (cases "init d")
  obtain x2 d2 where r: "request d1 = (x2, d2)" by (cases "request d1")
  obtain x3 d3 where c: "commit d2 = (x3, d3)" by (cases "commit d2")
  note i1 = init_rows [OF i] and r1 = request_rows [OF r] and c1 = commit_rows [OF c]
  show ?thesis
  proof (cases x1)
    case (Inl e)
    with assms i i1 show ?thesis by (auto simp: addMatch_def)
  next
    case (Inr u)
    show ?thesis
    proof (cases x2)
      case (Some e)
      with assms i r i1 r1 Inr show ?thesis by (auto simp: addMatch_def)
    next
      case None
      show ?thesis
      proof (cases x3)
        case None
        with assms i r c i1 r1 c1 Inr \<open>x2 = None\<close> show ?thesis by (auto simp: addMatch_def)
      next
        case (Some e)
        with assms i r c i1 r1 c1 Inr \<open>x2 = None\<close> show ?thesis by (auto simp: addMatch_def)
      qed
    qed
  qed
qed

text \<open>
  An insert whose request succeeds and whose transaction aborts: the promise resolves,
  and the store keeps the rows and the key generator it had.
\<close>

lemma addMatch_aborted:
  assumes "opened d" "fst (request d) = None" "fst (commit d) = Some e"
  shows "fst (addMatch d m) = Inr () \<and> rows (snd (addMatch d m)) = rows d \<and>
         key_generator (snd (addMatch d m)) = key_generator d"
proof -
  obtain x2 d2 where r: "request d = (x2, d2)" by (cases "request d")
  obtain x3 d3 where c: "commit d2 = (x3, d3)" by (cases "commit d2")
  from assms(2) r have x2: "x2 = None" by simp
  from request_rows [OF r] have "commits d2 = commits d" by simp
  from commit_answer [OF this] assms(3) c have x3: "x3 = Some e" by simp
  from request_rows [OF r] commit_rows [OF c] assms(1) r c x2 x3 show ?thesis
    by (simp add: addMatch_def init_def)
qed

lemma substring_in_range:
  assumes "0 \<le> a" "a \<le> b" "b \<le> int (length s)"
  shows "substring s a b = take (nat (b - a)) (drop (nat a) s)"
proof -
  have a: "min (max a 0) (int (length s)) = a"
    using assms by linarith
  have b: "min (max b 0) (int (length s)) = b"
    using assms by linarith
  have "min a b = a" "max a b = b"
    using assms(2) by simp_all
  then show ?thesis
    unfolding substring_def Let_def a b by simp
qed

lemma substring_beyond:
  assumes "int (length s) \<le> a" "int (length s) \<le> b"
  shows "substring s a b = []"
proof -
  have a: "min (max a 0) (int (length s)) = int (length s)"
    using assms by linarith
  have b: "min (max b 0) (int (length s)) = int (length s)"
    using assms by linarith
  show ?thesis
    unfolding substring_def Let_def a b by simp
qed

lemma length_snippet_of: "length (snippet_of s ent idx) \<le> length ent + 60 + 6"
proof -
  define a where "a = snippet_start idx"
  define b where "b = snippet_end s ent idx"
  have a0: "0 \<le> a" and a1: "int idx - 30 \<le> a" and a2: "a \<le> int idx + int (length ent) + 30"
    by (simp_all add: a_def snippet_start_def)
  have bl: "b \<le> int (length s)" and b1: "b \<le> int idx + int (length ent) + 30"
    by (simp_all add: b_def snippet_end_def)
  have b2: "b = int (length s) \<or> b = int idx + int (length ent) + 30"
    unfolding b_def snippet_end_def min_def by simp
  have "length (substring s a b) \<le> length ent + 60"
  proof (cases "a \<le> b")
    case True
    then have "substring s a b = take (nat (b - a)) (drop (nat a) s)"
      using a0 bl by (intro substring_in_range)
    moreover have "nat (b - a) \<le> length ent + 60"
      using a1 b1 by linarith
    ultimately show ?thesis by simp
  next
    case False
    with a2 b2 have "b = int (length s)" by linarith
    with False have "int (length s) \<le> a" "int (length s) \<le> b"
      by simp_all
    then show ?thesis by (simp add: substring_beyond)
  qed
  then show ?thesis
    unfolding snippet_of_def a_def b_def js_def by simp
qed

lemma slice_split:
  assumes "i \<le> j" "j \<le> k"
  shows "drop i (take k s) = drop i (take j s) @ drop j (take k s)"
proof -
  have t: "take j (take k s) = take j s"
    using assms(2) by (simp add: min_absorb1)
  have "drop i (take k s) = drop i (take j (take k s) @ drop j (take k s))"
    by (simp only: append_take_drop_id)
  also have "\<dots> = drop i (take j s @ drop j (take k s))"
    by (simp only: t)
  also have "\<dots> = drop i (take j s) @ drop (i - length (take j s)) (drop j (take k s))"
    by (rule drop_append)
  also have "drop (i - length (take j s)) (drop j (take k s)) = drop j (take k s)"
  proof (cases "j \<le> length s")
    case True
    then have "i - length (take j s) = 0"
      using assms(1) by simp
    then show ?thesis by simp
  next
    case False
    then have "drop j (take k s) = []" by simp
    then show ?thesis by simp
  qed
  finally show ?thesis .
qed

lemma snippet_of_parts:
  assumes "idx + length E \<le> length s"
  shows "snippet_of s E idx =
     js ''...'' @ drop (idx - 30) (take idx s) @ take (length E) (drop idx s) @
     take 30 (drop (idx + length E) s) @ js ''...''"
proof -
  define a where "a = idx - 30"
  define b where "b = min (length s) (idx + length E + 30)"
  have a: "snippet_start idx = int a"
    by (simp add: snippet_start_def a_def max_def)
  have b: "snippet_end s E idx = int b"
    by (simp add: snippet_end_def b_def min_def)
  have ai: "a \<le> idx" and ie: "idx + length E \<le> b" and bl: "b \<le> length s"
    using assms by (simp_all add: a_def b_def)
  have "substring s (int a) (int b) = take (b - a) (drop a s)"
    using ai ie bl by (subst substring_in_range) (simp_all add: nat_diff_distrib')
  also have "\<dots> = drop a (take b s)"
    by (simp add: drop_take)
  also have "\<dots> = drop a (take idx s) @ drop idx (take b s)"
    using ai ie by (intro slice_split) simp_all
  also have "drop idx (take b s) = drop idx (take (idx + length E) s) @ drop (idx + length E) (take b s)"
    using ie by (intro slice_split) simp_all
  also have "drop idx (take (idx + length E) s) = take (length E) (drop idx s)"
    by (simp add: drop_take)
  also have "drop (idx + length E) (take b s) = take 30 (drop (idx + length E) s)"
  proof (cases "length s \<le> idx + length E + 30")
    case True
    then have "b = length s" by (simp add: b_def)
    then show ?thesis using True by simp
  next
    case False
    then have "b = idx + length E + 30" by (simp add: b_def)
    then show ?thesis by (simp add: drop_take)
  qed
  finally show ?thesis
    by (simp add: snippet_of_def a b a_def)
qed


subsection \<open>Evaluating the scanner on a sample page\<close>

lemmas eval_simps =
  js_def createExactMatchRegex_eq entity_nodes_def starts_with_word_def
  ends_with_word_def is_word_char_def while_exec_unfold exec_def search_from.simps
  canonicalize_def ascii_upper_def is_word_at_def record_match_def addMatch_def init_def
  request_def commit_def new_match_def snippet_of_def snippet_start_def snippet_end_def substring_def
  scan_document_def sample_host_def sample_handle_def empty_db_def Let_def

lemma scan_document_sample:
  "scan_document sample_host [js ''cat''] (sample_handle (Readable (Pdf [Page [js ''a'', js ''Cat'']])))
     (Pdf [Page [js ''a'', js ''Cat'']]) (empty_db, 0) =
   Some (Inr (empty_db\<lparr>rows := [(1, \<lparr>entity = js ''cat'', fileName = js ''a.pdf'', pageNumber = 1,
       textSnippet = js ''...a Cat...'',
       fileHandle = sample_handle (Readable (Pdf [Page [js ''a'', js ''Cat'']])), timestamp = 1000\<rparr>)],
       key_generator := 2\<rparr>, 1))"
  by (simp add: eval_simps)

text \<open>
  Claim C10. For every entity list without the empty string and every page text, the
  matching step of a page (the loop over the entities with the extraction loop inside)
  returns. For each entity the pattern is built, the extraction loop returns whatever its
  body does, and every call of \<open>exec\<close> that finds an occurrence finds one of the entity's
  positive length and leaves \<open>lastIndex\<close> at its end, strictly beyond where the call
  started and within the text.
\<close>

theorem matching_step_total:
  assumes "[] \<notin> set csv"
  shows "(\<exists>res. scan_entities h fh pageNum T csv p = Some res) \<and>
     (\<forall>E \<in> set csv. \<exists>r. createExactMatchRegex E True = Some r \<and>
        (\<exists>res. while_exec uc body r T st = Some res) \<and>
        (\<forall>li r' m. exec uc (r\<lparr>lastIndex := li\<rparr>) T = (r', Some m) \<longrightarrow>
           length (matched m) = length E \<and> 0 < length E \<and>
           lastIndex r' = index m + length E \<and> li < lastIndex r' \<and> lastIndex r' \<le> length T))"
proof
  have "\<exists>res. scan_entities h fh pageNum T csv p = Some res \<and> True"
  proof (rule scan_entities_rule [where I = "\<lambda>p. True" and Q = "\<lambda>res. True"])
    show "[] \<notin> set csv" by (rule assms)
  qed (auto split: prod.splits sum.splits)
  then show "\<exists>res. scan_entities h fh pageNum T csv p = Some res" by simp
next
  show "\<forall>E \<in> set csv. \<exists>r. createExactMatchRegex E True = Some r \<and>
        (\<exists>res. while_exec uc body r T st = Some res) \<and>
        (\<forall>li r' m. exec uc (r\<lparr>lastIndex := li\<rparr>) T = (r', Some m) \<longrightarrow>
           length (matched m) = length E \<and> 0 < length E \<and>
           lastIndex r' = index m + length E \<and> li < lastIndex r' \<and> lastIndex r' \<le> length T)"
  proof
    fix E assume "E \<in> set csv"
    with assms have ne: "E \<noteq> []" by auto
    have "\<exists>res. while_exec uc body (entity_regex E 0) T st = Some res \<and> True"
      by (rule while_exec_entity [where I = "\<lambda>li st. True" and Q = "\<lambda>res. True", OF ne])
        (auto split: sum.splits)
    then have loop: "\<exists>res. while_exec uc body (entity_regex E 0) T st = Some res"
      by simp
    have adv: "length (matched m) = length E \<and> 0 < length E \<and>
           lastIndex r' = index m + length E \<and> li < lastIndex r' \<and> lastIndex r' \<le> length T"
      if ex: "exec uc ((entity_regex E 0)\<lparr>lastIndex := li\<rparr>) T = (r', Some m)" for li r' m
    proof -
      have "(entity_regex E 0)\<lparr>lastIndex := li\<rparr> = entity_regex E li"
        by (simp add: entity_regex_def)
      with ex have ex': "exec uc (entity_regex E li) T = (r', Some m)" by simp
      from exec_entity_Some [OF ex'] have r': "r' = entity_regex E (index m + length E)"
        and li: "li \<le> index m" and occ: "occurs_at uc E T (index m)"
        and mm: "matched m = take (length E) (drop (index m) T)"
        by simp_all
      have len: "length (matched m) = length E"
        using occ mm by (auto simp: occurs_at_def min_def)
      have pos: "0 < length E" using ne by simp
      have bnd: "index m + length E \<le> length T"
        using occ by (simp add: occurs_at_def)
      have li': "lastIndex r' = index m + length E"
        using r' by (simp add: entity_regex_def)
      show ?thesis
        using len pos bnd li' li by (simp del: length_greater_0_conv)
    qed
    have adv': "\<forall>li r' m. exec uc ((entity_regex E 0)\<lparr>lastIndex := li\<rparr>) T = (r', Some m) \<longrightarrow>
           length (matched m) = length E \<and> 0 < length E \<and>
           lastIndex r' = index m + length E \<and> li < lastIndex r' \<and> lastIndex r' \<le> length T"
      using adv by blast
    show "\<exists>r. createExactMatchRegex E True = Some r \<and>
        (\<exists>res. while_exec uc body r T st = Some res) \<and>
        (\<forall>li r' m. exec uc (r\<lparr>lastIndex := li\<rparr>) T = (r', Some m) \<longrightarrow>
           length (matched m) = length E \<and> 0 < length E \<and>
           lastIndex r' = index m + length E \<and> li < lastIndex r' \<and> lastIndex r' \<le> length T)"
      by (intro exI [of _ "entity_regex E 0"] conjI createExactMatchRegex_global loop adv')
  qed
qed

theorem matching_step_total_witness:
  "[] \<notin> set [js ''cat''] \<and>
   (\<exists>res. scan_entities sample_host (sample_handle (Readable (Pdf []))) 1 (js ''a cat'')
      [js ''cat''] (empty_db, 0) = Some res)"
proof -
  have h: "[] \<notin> set [js ''cat'']"
    by (simp add: js_def)
  have "\<exists>res. scan_entities sample_host (sample_handle (Readable (Pdf []))) 1 (js ''a cat'')
      [js ''cat''] (empty_db, 0) = Some res"
    by (rule matching_step_total [OF h, THEN conjunct1])
  with h show ?thesis
    by (rule conjI)
qed

text \<open>
  Claim C2. The snippet computed for a match is at most \<open>entity.length + 60\<close> characters
  of page text plus the 6 characters of the two ellipses, and so is the \<open>textSnippet\<close> of
  every Match Record that scanning a document adds to the store (the scan of a document
  returns when no entity is empty, and only appends rows).
\<close>

theorem snippet_length_bound:
  assumes "[] \<notin> set csv"
  shows "length (snippet_of s ent idx) \<le> length ent + 60 + 6 \<and>
     (\<exists>res new. scan_document h csv fh doc (d, n) = Some res \<and>
        rows (fst (progress_of res)) = rows d @ new \<and>
        (\<forall>m \<in> set new. length (textSnippet (snd m)) \<le> length (entity (snd m)) + 60 + 6))"
proof -
  define I where "I = (\<lambda>p :: progress. \<exists>new. rows (fst p) = rows d @ new \<and>
        (\<forall>m \<in> set new. length (textSnippet (snd m)) \<le> length (entity (snd m)) + 60 + 6))"
  define Q where "Q = (\<lambda>res :: exn \<times> progress + progress. I (progress_of res))"
  have "\<exists>res. scan_document h csv fh doc (d, n) = Some res \<and> Q res"
  proof (rule scan_document_rule [where I = I and Q = Q])
    show "[] \<notin> set csv" by (rule assms)
    show "I (d, n)" by (simp add: I_def)
    show "Q (Inl (e, p))" if "I p" for p e
      using that by (simp add: Q_def progress_of_def)
    show "Q (Inr p)" if "I p" for p
      using that by (simp add: Q_def progress_of_def)
    show "case addMatch d' (new_match h fh pn t ent idx k) of
           (Inl e, d'') \<Rightarrow> Q (Inl (e, (d'', k)))
         | (Inr u, d'') \<Rightarrow> I (d'', Suc k)"
      if "I (d', k)" for d' k pn t ent idx
    proof -
      obtain x d'' where am: "addMatch d' (new_match h fh pn t ent idx k) = (x, d'')"
        by (cases "addMatch d' (new_match h fh pn t ent idx k)")
      from that obtain new where new: "rows d' = rows d @ new"
        and bnd: "\<forall>m \<in> set new. length (textSnippet (snd m)) \<le> length (entity (snd m)) + 60 + 6"
        by (auto simp: I_def)
      have len: "length (textSnippet (new_match h fh pn t ent idx k)) \<le>
          length (entity (new_match h fh pn t ent idx k)) + 60 + 6"
        using length_snippet_of [of t ent idx] by (simp add: new_match_def)
      from addMatch_rows [OF am] show ?thesis
      proof (elim disjE)
        assume ok: "x = Inr () \<and> rows d'' = rows d' @ [(key_generator d', new_match h fh pn t ent idx k)]"
        then have "rows d'' = rows d @ (new @ [(key_generator d', new_match h fh pn t ent idx k)])"
          using new by simp
        moreover have "\<forall>m \<in> set (new @ [(key_generator d', new_match h fh pn t ent idx k)]).
            length (textSnippet (snd m)) \<le> length (entity (snd m)) + 60 + 6"
          using bnd len by simp
        ultimately have "I (d'', Suc k)"
          unfolding I_def by (intro exI [of _ "new @ [(key_generator d', new_match h fh pn t ent idx k)]"]) simp
        then show ?thesis using am ok by simp
      next
        assume ab: "x = Inr () \<and> rows d'' = rows d'"
        then have "I (d'', Suc k)"
          unfolding I_def using new bnd by auto
        then show ?thesis using am ab by simp
      next
        assume "(\<exists>e. x = Inl e) \<and> rows d'' = rows d'"
        then obtain e where x: "x = Inl e" and r: "rows d'' = rows d'" by blast
        have "I (d'', k)"
          unfolding I_def using new bnd r by auto
        then show ?thesis using am x by (simp add: Q_def progress_of_def)
      qed
    qed
  qed
  then show ?thesis
    using length_snippet_of [of s ent idx] by (auto simp: Q_def I_def)
qed

theorem snippet_length_bound_witness:
  "[] \<notin> set [js ''cat''] \<and>
   length (snippet_of (js ''a Cat'') (js ''cat'') 2) \<le> length (js ''cat'') + 60 + 6 \<and>
   (\<exists>res new. scan_document sample_host [js ''cat'']
        (sample_handle (Readable (Pdf [Page [js ''a'', js ''Cat'']])))
        (Pdf [Page [js ''a'', js ''Cat'']]) (empty_db, 0) = Some res \<and>
      rows (fst (progress_of res)) = rows empty_db @ new \<and>
      map (textSnippet \<circ> snd) new = [js ''...a Cat...''])"
proof -
  have h: "[] \<notin> set [js ''cat'']"
    by (simp add: js_def)
  have "length (snippet_of (js ''a Cat'') (js ''cat'') 2) \<le> length (js ''cat'') + 60 + 6"
    using snippet_length_bound [OF h] by blast
  moreover have "rows (fst (progress_of (Inr (empty_db\<lparr>rows := [(1, \<lparr>entity = js ''cat'', fileName = js ''a.pdf'', pageNumber = 1,
       textSnippet = js ''...a Cat...'',
       fileHandle = sample_handle (Readable (Pdf [Page [js ''a'', js ''Cat'']])), timestamp = 1000\<rparr>)],
       key_generator := 2\<rparr>, 1) :: exn \<times> progress + progress))) =
     rows empty_db @ [(1, \<lparr>entity = js ''cat'', fileName = js ''a.pdf'', pageNumber = 1,
       textSnippet = js ''...a Cat...'',
       fileHandle = sample_handle (Readable (Pdf [Page [js ''a'', js ''Cat'']])), timestamp = 1000\<rparr>)]"
    by (simp add: progress_of_def empty_db_def)
  ultimately show ?thesis
    using h scan_document_sample by (intro conjI exI) (assumption, assumption, assumption, assumption, simp)
qed

text \<open>
  Claim C9. For a match that lies within the page text, the bounds handed to \<open>substring\<close>
  stay within the text (\<open>0 \<le> start \<le> index\<close> and \<open>index + entity.length \<le> end \<le> length\<close>),
  so nothing is clamped or swapped, and the snippet is the ellipsis, the up to 30
  characters before the match, the matched text, the up to 30 characters after it, and
  the ellipsis. For a match at index 0 the left context is empty and the snippet still
  begins with the ellipsis, followed at once by the matched text.
\<close>

theorem snippet_bounds_and_start:
  assumes "idx + length E \<le> length s"
  shows "0 \<le> snippet_start idx \<and> snippet_start idx \<le> int idx \<and>
         int (idx + length E) \<le> snippet_end s E idx \<and> snippet_end s E idx \<le> int (length s) \<and>
         snippet_of s E idx =
           js ''...'' @ drop (idx - 30) (take idx s) @ take (length E) (drop idx s) @
           take 30 (drop (idx + length E) s) @ js ''...'' \<and>
         (idx = 0 \<longrightarrow> snippet_of s E idx = js ''...'' @ take (length E) s @
           take 30 (drop (length E) s) @ js ''...'')"
proof -
  have parts: "snippet_of s E idx =
           js ''...'' @ drop (idx - 30) (take idx s) @ take (length E) (drop idx s) @
           take 30 (drop (idx + length E) s) @ js ''...''"
    using assms by (rule snippet_of_parts)
  have "idx = 0 \<longrightarrow> snippet_of s E idx = js ''...'' @ take (length E) s @
           take 30 (drop (length E) s) @ js ''...''"
  proof
    assume "idx = 0"
    with parts show "snippet_of s E idx = js ''...'' @ take (length E) s @
           take 30 (drop (length E) s) @ js ''...''"
      by simp
  qed
  moreover note parts
  moreover have "0 \<le> snippet_start idx \<and> snippet_start idx \<le> int idx"
    by (simp add: snippet_start_def)
  moreover have "int (idx + length E) \<le> snippet_end s E idx \<and> snippet_end s E idx \<le> int (length s)"
    using assms by (simp add: snippet_end_def)
  ultimately show ?thesis by blast
qed

theorem snippet_bounds_and_start_witness:
  "0 + length (js ''cat'') \<le> length (js ''cat sat'') \<and>
   snippet_of (js ''cat sat'') (js ''cat'') 0 = js ''...cat sat...'' \<and>
   snippet_start 0 = 0 \<and> snippet_end (js ''cat sat'') (js ''cat'') 0 = 7"
proof -
  have h: "0 + length (js ''cat'') \<le> length (js ''cat sat'')"
    by (simp add: js_def)
  from snippet_bounds_and_start [OF h] h show ?thesis
    by (simp add: js_def snippet_start_def snippet_end_def)
qed

section \<open>Properties of the Match Store\<close>

subsection \<open>The grouped counts\<close>

text \<open>
  For entities that are not the name of a property of \<open>Object.prototype\<close> the grouped
  counts are the multiset cardinalities of the stored entities.
\<close>

lemma proto_key: "js ''__proto__'' \<in> set object_prototype_keys"
  by (simp add: object_prototype_keys_def)

lemma tally_plain:
  assumes "entity (snd m) \<notin> set object_prototype_keys"
    and "map_of counts (entity (snd m)) = (if n = 0 then None else Some (Number n))"
  shows "map_of (tally h counts m) = (map_of counts)(entity (snd m) \<mapsto> Number (Suc n))"
proof -
  have np: "entity (snd m) \<noteq> js ''__proto__''"
    using assms(1) proto_key by auto
  have "plus_one h (or_zero (get_property counts (entity (snd m)))) = Number (Suc n)"
    using assms by (simp add: get_property_def or_zero_def truthy_def plus_one_def)
  then show ?thesis
    using np by (simp add: tally_def set_property_def update_conv')
qed

lemma foldl_tally_counts:
  assumes "\<forall>m \<in> set rs. entity (snd m) \<notin> set object_prototype_keys"
    and "\<forall>e. map_of acc e = (if cnt e = 0 then None else Some (Number (cnt e)))"
  shows "map_of (foldl (tally h) acc rs) e =
     (if cnt e + entity_count rs e = 0 then None else Some (Number (cnt e + entity_count rs e)))"
  using assms
proof (induction rs arbitrary: acc cnt)
  case Nil
  then show ?case by (simp add: entity_count_def)
next
  case (Cons m rs)
  define cnt' where "cnt' = cnt(entity (snd m) := Suc (cnt (entity (snd m))))"
  have m: "entity (snd m) \<notin> set object_prototype_keys"
    using Cons.prems(1) by simp
  have "map_of (tally h acc m) = (map_of acc)(entity (snd m) \<mapsto> Number (Suc (cnt (entity (snd m)))))"
    using m Cons.prems(2) by (intro tally_plain) (assumption, blast)
  then have acc': "\<forall>e. map_of (tally h acc m) e = (if cnt' e = 0 then None else Some (Number (cnt' e)))"
    using Cons.prems(2) by (simp add: cnt'_def)
  have "map_of (foldl (tally h) (tally h acc m) rs) e =
     (if cnt' e + entity_count rs e = 0 then None else Some (Number (cnt' e + entity_count rs e)))"
    using Cons.prems(1) acc' by (intro Cons.IH) simp_all
  moreover have "cnt' e + entity_count rs e = cnt e + entity_count (m # rs) e"
    by (simp add: cnt'_def entity_count_def)
  ultimately show ?case by simp
qed

lemma getMatchesGrouped_counts:
  assumes "opened d" "outcomes d = []"
    and "\<forall>m \<in> set (rows d). entity (snd m) \<notin> set object_prototype_keys"
  shows "\<exists>counts. getMatchesGrouped h d = (Inr counts, d) \<and>
     (\<forall>e. map_of counts e =
        (if entity_count (rows d) e = 0 then None else Some (Number (entity_count (rows d) e))))"
proof -
  have g: "getMatchesGrouped h d = (Inr (foldl (tally h) [] (rows d)), d)"
    using assms(1,2) by (simp add: getMatchesGrouped_def init_def request_def)
  have "map_of (foldl (tally h) [] (rows d)) e =
     (if 0 + entity_count (rows d) e = 0 then None else Some (Number (0 + entity_count (rows d) e)))"
    for e
    using assms(3) by (intro foldl_tally_counts) simp_all
  then show ?thesis
    using g by simp
qed


text \<open>
  Claim C3. The grouped-count view is meant to map every stored entity to the number of
  Match Records that carry it. With the single record of entity \<open>constructor\<close> in the
  store the count is due to be 1; \<open>getMatchesGrouped\<close> reports the text that
  \<open>Object.prototype.constructor\<close> converts to, followed by the character \<open>1\<close>. With the
  single record of entity \<open>__proto__\<close> it reports no key at all.
\<close>

theorem grouped_counts_prototype_key:
  "entity_count [(1, m\<lparr>entity := js ''constructor''\<rparr>)] (js ''constructor'') = 1 \<and>
   getMatchesGrouped h (empty_db\<lparr>rows := [(1, m\<lparr>entity := js ''constructor''\<rparr>)]\<rparr>) =
     (Inr [(js ''constructor'', String (native_text h (js ''constructor'') @ js ''1''))],
      empty_db\<lparr>rows := [(1, m\<lparr>entity := js ''constructor''\<rparr>)]\<rparr>) \<and>
   fst (getMatchesGrouped h (empty_db\<lparr>rows := [(1, m\<lparr>entity := js ''__proto__''\<rparr>)]\<rparr>)) = Inr []"
  by (simp add: entity_count_def getMatchesGrouped_def init_def request_def empty_db_def
      tally_def get_property_def set_property_def or_zero_def truthy_def plus_one_def
      object_prototype_keys_def js_def)


subsection \<open>Clearing the store\<close>








section \<open>Properties of the Scan Orchestrator\<close>

subsection \<open>One file, and the loop over the files\<close>

lemma scan_files_aborted: "abortController st \<Longrightarrow> scan_files h stop fhs st = Some (Inr st)"
  by (cases fhs) simp_all

lemma refreshStats_frame:
  "refreshStats h st = Inr st' \<Longrightarrow>
     fileCount st' = fileCount st \<and> abortController st' = abortController st \<and>
     csvContent st' = csvContent st \<and> matchCount st' = matchCount st \<and>
     console st' = console st"
  by (auto simp: refreshStats_def split: prod.splits sum.splits)

lemma begin_file_frame:
  "fileCount (begin_file fh st) = Suc (fileCount st) \<and>
   abortController (begin_file fh st) = abortController st \<and>
   csvContent (begin_file fh st) = csvContent st \<and>
   db (begin_file fh st) = db st \<and> matchCount (begin_file fh st) = matchCount st \<and>
   console (begin_file fh st) = console st"
  by (simp add: begin_file_def Let_def)

lemma end_document_frame:
  "fileCount (end_document fh r st) = fileCount st \<and>
   abortController (end_document fh r st) = abortController st \<and>
   csvContent (end_document fh r st) = csvContent st \<and>
   db (end_document fh r st) = fst (progress_of r) \<and>
   matchCount (end_document fh r st) = snd (progress_of r)"
  by (cases r) (auto simp: end_document_def Let_def progress_of_def)

lemma scan_file_Readable:
  assumes "contents fh = Readable doc"
    and "scan_document h (csvContent st) fh doc (db st, matchCount st) = Some r"
  shows "scan_file h fh st =
     (if Suc (fileCount st) mod 5 = 0
      then Some (refreshStats h (end_document fh r (begin_file fh st)))
      else Some (Inr (end_document fh r (begin_file fh st))))"
  using assms by (simp add: scan_file_def Let_def begin_file_frame end_document_frame)

lemma scan_file_frame:
  assumes "scan_file h fh st = Some (Inr st')"
  shows "fileCount st' = Suc (fileCount st) \<and> abortController st' = abortController st \<and>
         csvContent st' = csvContent st"
proof (cases "contents fh")
  case (Unreadable e)
  with assms show ?thesis by (simp add: scan_file_def Let_def)
next
  case (Readable doc)
  obtain r where r: "scan_document h (csvContent st) fh doc (db st, matchCount st) = Some r"
    using assms Readable by (cases "scan_document h (csvContent st) fh doc (db st, matchCount st)")
      (simp_all add: scan_file_def Let_def begin_file_frame)
  let ?st4 = "end_document fh r (begin_file fh st)"
  have f4: "fileCount ?st4 = Suc (fileCount st) \<and> abortController ?st4 = abortController st \<and>
      csvContent ?st4 = csvContent st"
    by (simp add: begin_file_frame end_document_frame)
  show ?thesis
  proof (cases "Suc (fileCount st) mod 5 = 0")
    case True
    with assms have "refreshStats h ?st4 = Inr st'"
      by (simp add: scan_file_Readable [OF Readable r])
    from refreshStats_frame [OF this] f4 show ?thesis by simp
  next
    case False
    with assms have "st' = ?st4"
      by (simp add: scan_file_Readable [OF Readable r])
    with f4 show ?thesis by simp
  qed
qed

lemma stop_between_documents_eq:
  assumes "\<not> abortController st" "fileCount st < k" "k \<le> fileCount st + length fhs"
  shows "scan_files h (Some k) fhs st =
     map_option (map_sum id stopProcessing) (scan_files h None (take (k - fileCount st) fhs) st)"
  using assms
proof (induction fhs arbitrary: st)
  case Nil
  then show ?case by simp
next
  case (Cons fh fhs)
  from Cons.prems(2) obtain j where j: "k - fileCount st = Suc j"
    by (cases "k - fileCount st") simp_all
  show ?case
  proof (cases "scan_file h fh st")
    case None
    with Cons.prems(1) j show ?thesis by simp
  next
    case (Some res)
    show ?thesis
    proof (cases res)
      case (Inl x)
      with Some Cons.prems(1) j show ?thesis by simp
    next
      case (Inr st')
      from scan_file_frame [OF Some [unfolded Inr]]
      have fc: "fileCount st' = Suc (fileCount st)" and ab: "\<not> abortController st'"
        using Cons.prems(1) by simp_all
      have rhs: "scan_files h None (take (k - fileCount st) (fh # fhs)) st =
          scan_files h None (take j fhs) st'"
        using Cons.prems(1) Some Inr j by simp
      show ?thesis
      proof (cases "k = Suc (fileCount st)")
        case True
        then have j0: "j = 0" using j by simp
        have "scan_files h (Some k) (fh # fhs) st = scan_files h (Some k) fhs (stopProcessing st')"
          using Cons.prems(1) Some Inr fc True by simp
        also have "\<dots> = Some (Inr (stopProcessing st'))"
          by (rule scan_files_aborted) (simp add: stopProcessing_def)
        finally show ?thesis
          by (simp add: rhs j0)
      next
        case False
        then have lt: "fileCount st' < k" and le: "k \<le> fileCount st' + length fhs"
          using Cons.prems(2,3) fc by simp_all
        have kj: "k - fileCount st' = j"
          using j fc by simp
        have "scan_files h (Some k) (fh # fhs) st = scan_files h (Some k) fhs st'"
          using Cons.prems(1) Some Inr fc False by simp
        also have "\<dots> = map_option (map_sum id stopProcessing)
            (scan_files h None (take (k - fileCount st') fhs) st')"
          using ab lt le by (rule Cons.IH)
        finally show ?thesis
          by (simp only: rhs kj)
      qed
    qed
  qed
qed

lemma scan_document_total:
  assumes "[] \<notin> set csv"
  shows "\<exists>res. scan_document h csv fh doc p = Some res"
proof -
  have "\<exists>res. scan_document h csv fh doc p = Some res \<and> True"
    by (rule scan_document_rule [where I = "\<lambda>p. True" and Q = "\<lambda>res. True", OF assms])
      (auto split: prod.splits sum.splits)
  then show ?thesis by simp
qed

lemma scan_file_total:
  assumes "[] \<notin> set (csvContent st)"
  shows "\<exists>res. scan_file h fh st = Some res"
proof (cases "contents fh")
  case (Unreadable e)
  then show ?thesis by (simp add: scan_file_def Let_def)
next
  case (Readable doc)
  from scan_document_total [OF assms] obtain r
    where "scan_document h (csvContent st) fh doc (db st, matchCount st) = Some r"
    by blast
  from scan_file_Readable [OF Readable this] show ?thesis by simp
qed

lemma scan_files_total:
  assumes "[] \<notin> set (csvContent st)"
  shows "\<exists>res. scan_files h stop fhs st = Some res"
  using assms
proof (induction fhs arbitrary: st)
  case Nil
  show ?case by simp
next
  case (Cons fh fhs)
  from scan_file_total [OF Cons.prems] obtain res where res: "scan_file h fh st = Some res"
    by blast
  show ?case
  proof (cases res)
    case (Inl x)
    with res show ?thesis by simp
  next
    case (Inr st')
    from scan_file_frame [OF res [unfolded Inr]] Cons.prems
    have "[] \<notin> set (csvContent (if stop = Some (fileCount st') then stopProcessing st' else st'))"
      by (simp add: stopProcessing_def)
    from Cons.IH [OF this] show ?thesis
      using res Inr by simp
  qed
qed






lemmas scan_eval_simps =
  eval_simps scan_file_def begin_file_def end_document_def refreshStats_def sample_state_def
  stopProcessing_def progress_of_def





text \<open>
  Claim C5. When \<open>stopProcessing\<close> runs while the k-th document of the run is in flight,
  the loop does what a run without cancellation does on the first k documents alone, and
  then only sets the flag: the document in flight is scanned to its end, no later
  document begins, and the statistics, the store and the console are those of the first
  k documents. The inner loops have no access to the flag. The loop returns when no
  entity is empty.
\<close>

theorem stop_between_documents:
  assumes "\<not> abortController st" "fileCount st < k" "k \<le> fileCount st + length fhs"
  shows "scan_files h (Some k) fhs st =
       map_option (map_sum id stopProcessing)
         (scan_files h None (take (k - fileCount st) fhs) st) \<and>
     ([] \<notin> set (csvContent st) \<longrightarrow> (\<exists>res. scan_files h (Some k) fhs st = Some res))"
  using stop_between_documents_eq [OF assms] scan_files_total [of st h "Some k" fhs]
  by simp


theorem stop_between_documents_witness:
  "\<not> abortController sample_state \<and> fileCount sample_state < 1 \<and>
   1 \<le> fileCount sample_state +
     length [sample_handle (Readable (Pdf [Page [js ''a'', js ''Cat'']])),
             (sample_handle (Readable (Pdf [Page [js ''cat'']])))\<lparr>name := js ''b.pdf''\<rparr>] \<and>
   (\<exists>st'. scan_files sample_host (Some 1)
        [sample_handle (Readable (Pdf [Page [js ''a'', js ''Cat'']])),
         (sample_handle (Readable (Pdf [Page [js ''cat'']])))\<lparr>name := js ''b.pdf''\<rparr>]
        sample_state = Some (Inr st') \<and>
      abortController st' \<and> filesProcessed st' = 1 \<and> matchesFound st' = 1 \<and>
      map (fileName \<circ> snd) (rows (db st')) = [js ''a.pdf''])"
proof -
  have h: "\<not> abortController sample_state" "fileCount sample_state < 1"
    "1 \<le> fileCount sample_state +
     length [sample_handle (Readable (Pdf [Page [js ''a'', js ''Cat'']])),
             (sample_handle (Readable (Pdf [Page [js ''cat'']])))\<lparr>name := js ''b.pdf''\<rparr>]"
    by (simp_all add: sample_state_def)
  have fc: "fileCount sample_state = 0"
    by (simp add: sample_state_def)
  have run: "scan_files sample_host (Some 1)
        [sample_handle (Readable (Pdf [Page [js ''a'', js ''Cat'']])),
         (sample_handle (Readable (Pdf [Page [js ''cat'']])))\<lparr>name := js ''b.pdf''\<rparr>]
        sample_state =
      map_option (map_sum id stopProcessing)
        (scan_files sample_host None
          [sample_handle (Readable (Pdf [Page [js ''a'', js ''Cat'']]))] sample_state)"
    using stop_between_documents [OF h, of sample_host] by (simp add: fc)
  have "\<exists>st'. scan_files sample_host (Some 1)
        [sample_handle (Readable (Pdf [Page [js ''a'', js ''Cat'']])),
         (sample_handle (Readable (Pdf [Page [js ''cat'']])))\<lparr>name := js ''b.pdf''\<rparr>]
        sample_state = Some (Inr st') \<and>
      abortController st' \<and> filesProcessed st' = 1 \<and> matchesFound st' = 1 \<and>
      map (fileName \<circ> snd) (rows (db st')) = [js ''a.pdf'']"
    unfolding run by (simp add: scan_eval_simps)
  with h show ?thesis
    by blast
qed

subsection \<open>The answers of the store during a scan\<close>

lemma served_Nil: "served []"
  by (simp add: served_def)

lemma served_append: "served (xs @ ys) \<longleftrightarrow> served xs \<and> served ys"
  by (simp add: served_def)

lemma served_not_Some: "served os \<Longrightarrow> Some e \<notin> set os"
  by (auto simp: served_def list_all_iff)

lemma rejected_with_snoc:
  "rejected_with x (ns @ [y]) \<longleftrightarrow> served ns \<and> (y = Some x \<or> (y \<noteq> None \<and> x = DBError))"
  by (simp add: rejected_with_def)

lemma rejected_with_prepend:
  assumes "served xs" "rejected_with x ys"
  shows "rejected_with x (xs @ ys)"
proof (cases ys rule: rev_cases)
  case Nil
  with assms(2) show ?thesis by (simp add: rejected_with_def)
next
  case (snoc ns y)
  with assms(2) have "served ns \<and> (y = Some x \<or> (y \<noteq> None \<and> x = DBError))"
    by (simp only: rejected_with_snoc)
  with assms(1) have "rejected_with x ((xs @ ns) @ [y])"
    by (simp only: rejected_with_snoc served_append)
  with snoc show ?thesis by simp
qed

lemma rejected_with_member:
  assumes "rejected_with x os" "Some e \<in> set os"
  shows "x = e \<or> x = DBError"
proof (cases os rule: rev_cases)
  case Nil
  with assms(2) show ?thesis by simp
next
  case (snoc ns y)
  with assms(1) have s: "served ns" and y: "y = Some x \<or> (y \<noteq> None \<and> x = DBError)"
    by (simp_all only: rejected_with_snoc)
  from assms(2) snoc served_not_Some [OF s] have "y = Some e" by auto
  with y show ?thesis by auto
qed

lemma request_answers:
  assumes "request d = (x, d')"
  shows "\<exists>os. outcomes d = os @ outcomes d' \<and>
     (case x of None \<Rightarrow> served os | Some e \<Rightarrow> rejected_with e os)"
proof (cases "outcomes d")
  case Nil
  with assms have "x = None" "outcomes d' = []" by (auto simp: request_def)
  with Nil show ?thesis by (intro exI [of _ "[]"]) (simp add: served_def)
next
  case (Cons y ys)
  with assms have x: "x = y" and d': "outcomes d' = ys" by (auto simp: request_def)
  show ?thesis
    using Cons x d' by (intro exI [of _ "[y]"]) (cases y; simp add: served_def rejected_with_def)
qed

lemma init_answers:
  assumes "init d = (x, d')"
  shows "\<exists>os. outcomes d = os @ outcomes d' \<and>
     (case x of Inr u \<Rightarrow> served os | Inl e \<Rightarrow> rejected_with e os)"
proof (cases "opened d")
  case True
  with assms have "x = Inr ()" "d' = d" by (auto simp: init_def)
  then show ?thesis by (intro exI [of _ "[]"]) (simp add: served_def)
next
  case False
  obtain y d1 where r: "request d = (y, d1)" by (cases "request d")
  from request_answers [OF r] obtain os where os: "outcomes d = os @ outcomes d1"
    and c: "case y of None \<Rightarrow> served os | Some e \<Rightarrow> rejected_with e os"
    by blast
  show ?thesis
  proof (cases y)
    case None
    with assms False r have "x = Inr ()" "outcomes d' = outcomes d1" by (auto simp: init_def)
    with os c None show ?thesis by (intro exI [of _ os]) simp
  next
    case (Some e)
    with assms False r have "x = Inl DBError" "outcomes d' = outcomes d1" by (auto simp: init_def)
    moreover from c Some have "rejected_with DBError os"
      by (auto simp: rejected_with_def)
    ultimately show ?thesis using os by (intro exI [of _ os]) simp
  qed
qed

lemma two_requests:
  assumes i: "init d = (x1, d1)" and r: "request d1 = (x2, d2)"
  shows "(\<exists>e. x1 = Inl e \<and> (\<exists>os. outcomes d = os @ outcomes d1 \<and> rejected_with e os)) \<or>
     (x1 = Inr () \<and> (\<exists>e. x2 = Some e \<and> (\<exists>os. outcomes d = os @ outcomes d2 \<and> rejected_with e os))) \<or>
     (x1 = Inr () \<and> x2 = None \<and> (\<exists>os. outcomes d = os @ outcomes d2 \<and> served os))"
proof -
  from init_answers [OF i] obtain os1 where os1: "outcomes d = os1 @ outcomes d1"
    and c1: "case x1 of Inr u \<Rightarrow> served os1 | Inl e \<Rightarrow> rejected_with e os1"
    by blast
  from request_answers [OF r] obtain os2 where os2: "outcomes d1 = os2 @ outcomes d2"
    and c2: "case x2 of None \<Rightarrow> served os2 | Some e \<Rightarrow> rejected_with e os2"
    by blast
  show ?thesis
  proof (cases x1)
    case (Inl e)
    with os1 c1 show ?thesis by auto
  next
    case (Inr u)
    with c1 have s1: "served os1" by simp
    have all: "outcomes d = (os1 @ os2) @ outcomes d2"
      using os1 os2 by simp
    show ?thesis
    proof (cases x2)
      case None
      with c2 s1 have "served (os1 @ os2)" by (simp add: served_append)
      with all Inr None show ?thesis by auto
    next
      case (Some e)
      with c2 s1 have "rejected_with e (os1 @ os2)" by (simp add: rejected_with_prepend)
      with all Inr Some show ?thesis by auto
    qed
  qed
qed

lemma addMatch_answers:
  assumes "addMatch d m = (x, d')"
  shows "\<exists>os. outcomes d = os @ outcomes d' \<and>
     (case x of Inr u \<Rightarrow> served os | Inl e \<Rightarrow> rejected_with e os)"
proof -
  obtain x1 d1 where i: "init d = (x1, d1)" by (cases "init d")
  obtain x2 d2 where r: "request d1 = (x2, d2)" by (cases "request d1")
  obtain x3 d3 where c: "commit d2 = (x3, d3)" by (cases "commit d2")
  from commit_rows [OF c] have o: "outcomes d3 = outcomes d2" by simp
  from two_requests [OF i r] assms i r c o show ?thesis
    by (elim disjE conjE exE) (cases x3; auto simp: addMatch_def)+
qed

lemma getMatchesGrouped_answers:
  assumes "getMatchesGrouped h d = (x, d')"
  shows "\<exists>os. outcomes d = os @ outcomes d' \<and>
     (case x of Inr u \<Rightarrow> served os | Inl e \<Rightarrow> rejected_with e os)"
proof -
  obtain x1 d1 where i: "init d = (x1, d1)" by (cases "init d")
  obtain x2 d2 where r: "request d1 = (x2, d2)" by (cases "request d1")
  from two_requests [OF i r] assms i r show ?thesis
    by (elim disjE conjE exE) (auto simp: getMatchesGrouped_def)
qed

lemma refreshStats_answers:
  "\<exists>os. outcomes (db st) = os @ outcomes (db (progress_of (refreshStats h st))) \<and>
     console (progress_of (refreshStats h st)) = console st \<and>
     (case refreshStats h st of Inr s \<Rightarrow> served os | Inl (x, s) \<Rightarrow> rejected_with x os)"
proof -
  obtain x d' where g: "getMatchesGrouped h (db st) = (x, d')"
    by (cases "getMatchesGrouped h (db st)")
  from getMatchesGrouped_answers [OF g] obtain os where "outcomes (db st) = os @ outcomes d'"
    and "case x of Inr u \<Rightarrow> served os | Inl e \<Rightarrow> rejected_with e os"
    by blast
  then show ?thesis
    using g by (intro exI [of _ os]) (cases x; simp add: refreshStats_def progress_of_def)
qed

lemma scan_document_answers:
  assumes "[] \<notin> set csv"
  shows "\<exists>res os. scan_document h csv fh doc (d, n) = Some res \<and>
     outcomes d = os @ outcomes (fst (progress_of res)) \<and>
     (case res of Inr p \<Rightarrow> served os | Inl (x, p) \<Rightarrow> served os \<or> rejected_with x os)"
proof -
  define I where "I = (\<lambda>p :: progress. \<exists>os. outcomes d = os @ outcomes (fst p) \<and> served os)"
  define Q where "Q = (\<lambda>res :: exn \<times> progress + progress.
      \<exists>os. outcomes d = os @ outcomes (fst (progress_of res)) \<and>
        (case res of Inr p \<Rightarrow> served os | Inl (x, p) \<Rightarrow> served os \<or> rejected_with x os))"
  have "\<exists>res. scan_document h csv fh doc (d, n) = Some res \<and> Q res"
  proof (rule scan_document_rule [where I = I and Q = Q])
    show "[] \<notin> set csv" by (rule assms)
    show "I (d, n)" by (auto simp: I_def served_def)
    show "Q (Inl (e, p))" if "I p" for p e
      using that by (auto simp: I_def Q_def progress_of_def)
    show "Q (Inr p)" if "I p" for p
      using that by (auto simp: I_def Q_def progress_of_def)
    show "case addMatch d' (new_match h fh pn t ent idx k) of
           (Inl e, d'') \<Rightarrow> Q (Inl (e, (d'', k)))
         | (Inr u, d'') \<Rightarrow> I (d'', Suc k)"
      if "I (d', k)" for d' k pn t ent idx
    proof -
      obtain x d'' where am: "addMatch d' (new_match h fh pn t ent idx k) = (x, d'')"
        by (cases "addMatch d' (new_match h fh pn t ent idx k)")
      from that obtain os where os: "outcomes d = os @ outcomes d'" and s: "served os"
        by (auto simp: I_def)
      from addMatch_answers [OF am] obtain os' where os': "outcomes d' = os' @ outcomes d''"
        and c: "case x of Inr u \<Rightarrow> served os' | Inl e \<Rightarrow> rejected_with e os'"
        by blast
      have all: "outcomes d = (os @ os') @ outcomes d''"
        using os os' by simp
      show ?thesis
      proof (cases x)
        case (Inl e)
        with c s have "rejected_with e (os @ os')" by (simp add: rejected_with_prepend)
        with all have "Q (Inl (e, (d'', k)))"
          unfolding Q_def by (intro exI [of _ "os @ os'"]) (simp add: progress_of_def)
        with am Inl show ?thesis by simp
      next
        case (Inr u)
        with c s have "served (os @ os')" by (simp add: served_append)
        with all have "I (d'', Suc k)"
          unfolding I_def by (intro exI [of _ "os @ os'"]) simp
        with am Inr show ?thesis by simp
      qed
    qed
  qed
  then show ?thesis by (auto simp: Q_def)
qed



text \<open>
  Rejected requests do surface. A store operation whose request is rejected rejects with
  the error of the request: \<open>addMatch\<close>, \<open>clear\<close>, \<open>getMatchesGrouped\<close> and
  \<open>getMatchesForEntity\<close> hand it to their caller. During the scan of a file every
  request that the store rejected while the file was processed either is written to the
  console as the failure of that file (an insert, caught by the \<open>try\<close> around the
  document) or leaves the iteration as an exception (the refresh after every fifth
  file); a rejected opening of the database appears as \<open>DBError\<close>.
\<close>

lemma rejected_requests_surface:
  assumes "[] \<notin> set (csvContent st)"
  shows "(opened d \<and> outcomes d = Some e # rest \<longrightarrow>
        fst (addMatch d m) = Inl e \<and> fst (clear d) = Inl e \<and>
        fst (getMatchesGrouped h d) = Inl e \<and> fst (getMatchesForEntity d ent) = Inl e) \<and>
     (\<exists>res os new. scan_file h fh st = Some res \<and>
        outcomes (db st) = os @ outcomes (db (progress_of res)) \<and>
        console (progress_of res) = console st @ new \<and>
        (\<forall>e. Some e \<in> set os \<longrightarrow>
           (\<exists>x. (x = e \<or> x = DBError) \<and>
              (FileFailure (name fh) x \<in> set new \<or> (\<exists>s. res = Inl (x, s))))))"
proof
  show "opened d \<and> outcomes d = Some e # rest \<longrightarrow>
        fst (addMatch d m) = Inl e \<and> fst (clear d) = Inl e \<and>
        fst (getMatchesGrouped h d) = Inl e \<and> fst (getMatchesForEntity d ent) = Inl e"
    by (simp add: addMatch_def clear_def getMatchesGrouped_def getMatchesForEntity_def
        init_def request_def)
next
  show "\<exists>res os new. scan_file h fh st = Some res \<and>
        outcomes (db st) = os @ outcomes (db (progress_of res)) \<and>
        console (progress_of res) = console st @ new \<and>
        (\<forall>e. Some e \<in> set os \<longrightarrow>
           (\<exists>x. (x = e \<or> x = DBError) \<and>
              (FileFailure (name fh) x \<in> set new \<or> (\<exists>s. res = Inl (x, s)))))"
  proof (cases "contents fh")
    case (Unreadable x)
    then have "scan_file h fh st = Some (Inl (x, begin_file fh st))"
      by (simp add: scan_file_def Let_def)
    then show ?thesis
      by (intro exI [of _ "Inl (x, begin_file fh st)"] exI [of _ "[]"])
        (simp add: progress_of_def begin_file_frame)
  next
    case (Readable doc)
    from scan_document_answers [OF assms, of h fh doc "db st" "matchCount st"]
    obtain r os1 where r: "scan_document h (csvContent st) fh doc (db st, matchCount st) = Some r"
      and os1: "outcomes (db st) = os1 @ outcomes (fst (progress_of r))"
      and c1: "case r of Inr p \<Rightarrow> served os1 | Inl (x, p) \<Rightarrow> served os1 \<or> rejected_with x os1"
      by blast
    let ?st4 = "end_document fh r (begin_file fh st)"
    define new where "new = (case r of Inl (x, p) \<Rightarrow> [FileFailure (name fh) x] | Inr p \<Rightarrow> [])"
    have db4: "db ?st4 = fst (progress_of r)"
      by (simp add: end_document_frame)
    have con4: "console ?st4 = console st @ new"
      by (cases r) (auto simp: end_document_def begin_file_def Let_def new_def)
    have acc1: "\<exists>x. (x = e \<or> x = DBError) \<and> FileFailure (name fh) x \<in> set new"
      if "Some e \<in> set os1" for e
    proof (cases r)
      case (Inr p)
      with c1 that served_not_Some show ?thesis by auto
    next
      case (Inl xp)
      obtain x p where xp: "xp = (x, p)" by (cases xp)
      from c1 Inl xp that served_not_Some have "rejected_with x os1" by auto
      from rejected_with_member [OF this that] Inl xp show ?thesis
        by (auto simp: new_def)
    qed
    show ?thesis
    proof (cases "Suc (fileCount st) mod 5 = 0")
      case False
      then have res: "scan_file h fh st = Some (Inr ?st4)"
        using scan_file_Readable [OF Readable r] by simp
      show ?thesis
        using res os1 db4 con4 acc1
        by (intro exI [of _ "Inr ?st4"] exI [of _ os1] exI [of _ new])
          (auto simp: progress_of_def)
    next
      case True
      then have res: "scan_file h fh st = Some (refreshStats h ?st4)"
        using scan_file_Readable [OF Readable r] by simp
      from refreshStats_answers [of ?st4 h] obtain os2
        where os2: "outcomes (db ?st4) = os2 @ outcomes (db (progress_of (refreshStats h ?st4)))"
          and con: "console (progress_of (refreshStats h ?st4)) = console ?st4"
          and c2: "case refreshStats h ?st4 of Inr s \<Rightarrow> served os2
                   | Inl (x, s) \<Rightarrow> rejected_with x os2"
        by blast
      have all: "outcomes (db st) = (os1 @ os2) @ outcomes (db (progress_of (refreshStats h ?st4)))"
        using os1 os2 db4 by simp
      have acc2: "\<exists>x. (x = e \<or> x = DBError) \<and> (\<exists>s. refreshStats h ?st4 = Inl (x, s))"
        if "Some e \<in> set os2" for e
      proof (cases "refreshStats h ?st4")
        case (Inr s)
        with c2 that served_not_Some show ?thesis by auto
      next
        case (Inl xs)
        obtain x s where xs: "xs = (x, s)" by (cases xs)
        from c2 Inl xs have "rejected_with x os2" by simp
        from rejected_with_member [OF this that] Inl xs show ?thesis by auto
      qed
      have acc: "\<exists>x. (x = e \<or> x = DBError) \<and>
          (FileFailure (name fh) x \<in> set new \<or> (\<exists>s. refreshStats h ?st4 = Inl (x, s)))"
        if "Some e \<in> set (os1 @ os2)" for e
        using that acc1 [of e] acc2 [of e] by auto
      show ?thesis
        using res all con con4 acc
        by (intro exI [of _ "refreshStats h ?st4"] exI [of _ "os1 @ os2"] exI [of _ new])
          auto
    qed
  qed
qed

lemma rejected_requests_surface_sample:
  "[] \<notin> set (csvContent (sample_state\<lparr>db := empty_db\<lparr>outcomes := [Some QuotaExceededError]\<rparr>\<rparr>)) \<and>
   fst (addMatch (empty_db\<lparr>outcomes := [Some QuotaExceededError]\<rparr>) denied_match) =
     Inl QuotaExceededError \<and>
   (\<exists>st'. scan_file sample_host (sample_handle (Readable (Pdf [Page [js ''a'', js ''Cat'']])))
        (sample_state\<lparr>db := empty_db\<lparr>outcomes := [Some QuotaExceededError]\<rparr>\<rparr>) = Some (Inr st') \<and>
      console st' = [FileFailure (js ''a.pdf'') QuotaExceededError] \<and>
      rows (db st') = [] \<and> outcomes (db st') = [])"
proof -
  have h: "[] \<notin> set (csvContent (sample_state\<lparr>db := empty_db\<lparr>outcomes := [Some QuotaExceededError]\<rparr>\<rparr>))"
    by (simp add: sample_state_def js_def)
  have o: "opened (empty_db\<lparr>outcomes := [Some QuotaExceededError]\<rparr>) \<and>
      outcomes (empty_db\<lparr>outcomes := [Some QuotaExceededError]\<rparr>) = Some QuotaExceededError # []"
    by (simp add: empty_db_def)
  from rejected_requests_surface [OF h, THEN conjunct1, rule_format, OF o]
  have "fst (addMatch (empty_db\<lparr>outcomes := [Some QuotaExceededError]\<rparr>) denied_match) =
     Inl QuotaExceededError"
    by (rule conjunct1)
  moreover have "\<exists>st'. scan_file sample_host (sample_handle (Readable (Pdf [Page [js ''a'', js ''Cat'']])))
        (sample_state\<lparr>db := empty_db\<lparr>outcomes := [Some QuotaExceededError]\<rparr>\<rparr>) = Some (Inr st') \<and>
      console st' = [FileFailure (js ''a.pdf'') QuotaExceededError] \<and>
      rows (db st') = [] \<and> outcomes (db st') = []"
    by (simp add: scan_eval_simps)
  ultimately show ?thesis
    using h by blast
qed

subsection \<open>A transaction that aborts after its request succeeded\<close>

text \<open>
  The sibling path: \<open>addMatch\<close> and \<open>clearMatches\<close> of \<open>db.ts\<close> reject when the
  transaction aborts.
\<close>

lemma db_ts_aborted:
  assumes "fst (request d) = None" "fst (request (snd (request d))) = None"
    and "fst (commit d) = Some e"
  shows "fst (db_ts_addMatch d m) = Inl e \<and> fst (clearMatches d) = Inl e"
proof -
  obtain x1 d1 where r1: "request d = (x1, d1)" by (cases "request d")
  let ?d1 = "d1\<lparr>opened := True\<rparr>"
  obtain x2 d2 where r2: "request ?d1 = (x2, d2)" by (cases "request ?d1")
  obtain x3 d3 where c: "commit d2 = (x3, d3)" by (cases "commit d2")
  from assms(1) r1 have x1: "x1 = None" by simp
  have "fst (request ?d1) = fst (request d1)"
    by (cases "outcomes d1") (simp_all add: request_def)
  with assms(2) r1 r2 have x2: "x2 = None" by simp
  from request_rows [OF r1] request_rows [OF r2] have "commits d2 = commits d" by simp
  from commit_answer [OF this] assms(3) c have x3: "x3 = Some e" by simp
  from r1 r2 c x1 x2 x3 show ?thesis
    by (simp add: db_ts_addMatch_def clearMatches_def initDB_def)
qed

text \<open>
  Claim C7. A failure of the store is due to reach the caller of the store operation and
  not to be swallowed. On a store whose next transaction aborts with
  \<open>QuotaExceededError\<close> after its request succeeded, \<open>addMatch\<close> and \<open>clear\<close> of
  \<open>LocalDB\<close> resolve although nothing was stored or removed, while \<open>addMatch\<close> of \<open>db.ts\<close>
  rejects with the error. The scan of a file with one match on such a store ends
  normally with the match counted, nothing written to the console and no row in the
  store.
\<close>

theorem aborted_transaction_swallowed:
  "addMatch (empty_db\<lparr>commits := [Some QuotaExceededError]\<rparr>) m = (Inr (), empty_db) \<and>
   clear (empty_db\<lparr>rows := [(1, m)], commits := [Some QuotaExceededError]\<rparr>) =
     (Inr (), empty_db\<lparr>rows := [(1, m)]\<rparr>) \<and>
   db_ts_addMatch (empty_db\<lparr>commits := [Some QuotaExceededError]\<rparr>) m =
     (Inl QuotaExceededError, empty_db) \<and>
   (\<exists>st'. scan_file sample_host (sample_handle (Readable (Pdf [Page [js ''a'', js ''Cat'']])))
        (sample_state\<lparr>db := empty_db\<lparr>commits := [Some QuotaExceededError]\<rparr>\<rparr>) = Some (Inr st') \<and>
      rows (db st') = [] \<and> console st' = [] \<and> matchCount st' = 1 \<and> matchesFound st' = 1)"
proof -
  have "addMatch (empty_db\<lparr>commits := [Some QuotaExceededError]\<rparr>) m = (Inr (), empty_db)"
    by (simp add: addMatch_def init_def request_def commit_def empty_db_def)
  moreover have "clear (empty_db\<lparr>rows := [(1, m)], commits := [Some QuotaExceededError]\<rparr>) =
     (Inr (), empty_db\<lparr>rows := [(1, m)]\<rparr>)"
    by (simp add: clear_def init_def request_def commit_def empty_db_def)
  moreover have "db_ts_addMatch (empty_db\<lparr>commits := [Some QuotaExceededError]\<rparr>) m =
     (Inl QuotaExceededError, empty_db)"
    by (simp add: db_ts_addMatch_def initDB_def request_def commit_def empty_db_def)
  moreover have "\<exists>st'. scan_file sample_host
        (sample_handle (Readable (Pdf [Page [js ''a'', js ''Cat'']])))
        (sample_state\<lparr>db := empty_db\<lparr>commits := [Some QuotaExceededError]\<rparr>\<rparr>) = Some (Inr st') \<and>
      rows (db st') = [] \<and> console st' = [] \<and> matchCount st' = 1 \<and> matchesFound st' = 1"
    by (simp add: scan_eval_simps)
  ultimately show ?thesis
    by (intro conjI)
qed

subsection \<open>The whole run\<close>

lemma processDirectory_total:
  assumes "[] \<notin> set (csvContent st)"
  shows "\<exists>res. processDirectory h confirm stop files st = Some res"
proof (cases "csvContent st = []")
  case True
  then show ?thesis by (simp add: processDirectory_def)
next
  case False
  let ?st1 = "st\<lparr>isProcessing := True, abortController := False\<rparr>"
  show ?thesis
  proof (cases "if entityCounts ?st1 \<noteq> [] \<and> confirm then clear_results ?st1 else Inr ?st1")
    case (Inl x)
    with False show ?thesis by (simp add: processDirectory_def Let_def)
  next
    case (Inr st2)
    then have "csvContent st2 = csvContent st"
      by (auto simp: clear_results_def split: if_splits prod.splits sum.splits)
    with assms have "[] \<notin> set (csvContent
        (if stop = Some 0 then stopProcessing (st2\<lparr>fileCount := 0, matchCount := 0\<rparr>)
         else st2\<lparr>fileCount := 0, matchCount := 0\<rparr>))"
      by (simp add: stopProcessing_def)
    from scan_files_total [OF this, of h stop files] obtain r where
      "scan_files h stop files
        (if stop = Some 0 then stopProcessing (st2\<lparr>fileCount := 0, matchCount := 0\<rparr>)
         else st2\<lparr>fileCount := 0, matchCount := 0\<rparr>) = Some r"
      by blast
    with False Inr show ?thesis by (simp add: processDirectory_def Let_def)
  qed
qed

lemma processDirectory_sample:
  "\<exists>st'. processDirectory sample_host True None
       [(sample_handle (Readable (Corrupt InvalidPDFException)))\<lparr>name := js ''bad.pdf''\<rparr>,
        sample_handle (Readable (Pdf [Page [js ''a'', js ''Cat'']]))]
       sample_state = Some (Inr st') \<and>
     \<not> isProcessing st' \<and> filesProcessed st' = 2 \<and> matchesFound st' = 1 \<and>
     entityCounts st' = [(js ''cat'', Number 1)] \<and>
     map (textSnippet \<circ> snd) (rows (db st')) = [js ''...a Cat...'']"
  by (simp add: processDirectory_def scan_eval_simps getMatchesGrouped_def tally_def
      get_property_def set_property_def or_zero_def truthy_def plus_one_def
      object_prototype_keys_def)

section \<open>Properties of the Render Engine\<close>

lemma render_granted_paints:
  "canvas (loadAndRenderMatch sample_host
      (denied_match\<lparr>fileHandle := sample_handle (Readable (Pdf [Page [js ''a'', js ''Cat'']]))\<rparr>)
      sample_state) = Painted (js ''a.pdf'') 1 [1]"
  by (simp add: loadAndRenderMatch_def render_page_def load_and_paint_def denied_match_def
      sample_handle_def sample_state_def sample_host_def Let_def highlights_def test_def
      createExactMatchRegex_eq entity_nodes_def starts_with_word_def ends_with_word_def
      is_word_char_def exec_def search_from.simps canonicalize_def ascii_upper_def
      is_word_at_def js_def upt_rec)

lemma render_request_throws:
  assumes "pdfLibReady st" "canvasMounted st"
    and "queryPermission (fileHandle m) = Inr p" "p \<noteq> Granted"
    and "requestPermission (fileHandle m) = Inl e"
  shows "alerts (loadAndRenderMatch h m st) = alerts st @ [FileNotLoaded] \<and>
         canvas (loadAndRenderMatch h m st) = canvas st"
  using assms by (simp add: loadAndRenderMatch_def render_page_def Let_def)

text \<open>
  Claim C8, as stated: a denied permission re-request makes \<open>render\<close> fail visibly, with
  an explicit message. On the Match Record \<open>denied_match\<close> the query answers \<open>prompt\<close> and
  the request answers \<open>denied\<close>; the render returns with no alert shown and nothing
  written to the console.
\<close>

theorem render_denied_counterexample:
  "pdfLibReady sample_state \<and> canvasMounted sample_state \<and>
   queryPermission (fileHandle denied_match) = Inr Prompt \<and>
   requestPermission (fileHandle denied_match) = Inr Denied \<and>
   alerts (loadAndRenderMatch sample_host denied_match sample_state) = alerts sample_state \<and>
   console (loadAndRenderMatch sample_host denied_match sample_state) = console sample_state"
  by (simp add: loadAndRenderMatch_def render_page_def denied_match_def sample_handle_def
      sample_state_def Let_def)


text \<open>
  Claim C8, amended. When the permission query does not answer \<open>granted\<close> and the
  re-request is denied, the render operation does not render the page onto the target
  surface and returns silently: the selected match is set, and the canvas, the alerts
  and the console stay as they were.
\<close>

theorem render_denied_silent:
  assumes "queryPermission (fileHandle m) = Inr p" "p \<noteq> Granted"
    and "requestPermission (fileHandle m) = Inr q" "q \<noteq> Granted"
  shows "loadAndRenderMatch h m st = st\<lparr>selectedMatch := Some m\<rparr> \<and>
         canvas (loadAndRenderMatch h m st) = canvas st \<and>
         alerts (loadAndRenderMatch h m st) = alerts st \<and>
         console (loadAndRenderMatch h m st) = console st"
  using assms by (simp add: loadAndRenderMatch_def render_page_def Let_def)


theorem render_denied_silent_witness:
  "queryPermission (fileHandle denied_match) = Inr Prompt \<and> Prompt \<noteq> Granted \<and>
   requestPermission (fileHandle denied_match) = Inr Denied \<and> Denied \<noteq> Granted \<and>
   loadAndRenderMatch sample_host denied_match sample_state =
     sample_state\<lparr>selectedMatch := Some denied_match\<rparr> \<and>
   canvas (loadAndRenderMatch sample_host denied_match sample_state) = Blank \<and>
   alerts (loadAndRenderMatch sample_host denied_match sample_state) = []"
proof -
  have q: "queryPermission (fileHandle denied_match) = Inr Prompt"
    and r: "requestPermission (fileHandle denied_match) = Inr Denied"
    by (simp_all add: denied_match_def sample_handle_def)
  have p: "Prompt \<noteq> Granted" and d: "Denied \<noteq> Granted"
    by simp_all
  from render_denied_silent [OF q p r d, of sample_host sample_state] q r show ?thesis
    by (simp add: sample_state_def)
qed


end
